theory Spec2Isabelle
  imports Complex_Main "HOL-Library.Multiset" "HOL-Library.Sublist" "HOL-Library.Code_Target_Nat"
begin

section \<open>Strings\<close>

text \<open>
  JavaScript strings are modelled as \<^typ>\<open>string\<close>: a character is one code unit in the
  Latin-1 range. The helpers below follow the String methods the userscript calls.
\<close>

definition lower_char :: "char \<Rightarrow> char" where
  "lower_char c =
     (let n = (of_char c :: nat)
      in if (65 \<le> n \<and> n \<le> 90) \<or> (192 \<le> n \<and> n \<le> 222 \<and> n \<noteq> 215)
         then char_of (n + 32) else c)"

definition toLowerCase :: "string \<Rightarrow> string" where
  "toLowerCase s = map lower_char s"

fun startsWith :: "string \<Rightarrow> string \<Rightarrow> bool" where
  "startsWith s [] = True"
| "startsWith [] (p # ps) = False"
| "startsWith (c # cs) (p # ps) = (c = p \<and> startsWith cs ps)"

fun includes_js :: "string \<Rightarrow> string \<Rightarrow> bool" where
  "includes_js [] p = startsWith [] p"
| "includes_js (c # cs) p = (startsWith (c # cs) p \<or> includes_js cs p)"

definition endsWith :: "string \<Rightarrow> string \<Rightarrow> bool" where
  "endsWith s p = startsWith (rev s) (rev p)"

text \<open>
  \<open>/t1|t2|...|tn/i.test(s)\<close> for alternatives that are lower-case ASCII literals: some
  alternative occurs in \<open>s\<close>, letters compared without case.
\<close>

definition test_ci :: "string list \<Rightarrow> string \<Rightarrow> bool" where
  "test_ci alts s = list_ex (includes_js (toLowerCase s)) alts"

text \<open>\<open>Array.prototype.join\<close>.\<close>

fun join :: "string \<Rightarrow> string list \<Rightarrow> string" where
  "join sep [] = []"
| "join sep [x] = x"
| "join sep (x # y # ys) = x @ sep @ join sep (y # ys)"


section \<open>Folder classifier (\<open>getFolderType\<close>)\<close>

datatype folder_type = Video | Audio | Photo | Archive | Document | Default

definition getFolderType :: "string \<Rightarrow> folder_type" where
  "getFolderType name0 =
     (let name = toLowerCase name0
      in if test_ci [''video'', ''movie'', ''film'', ''tv'', ''show'', ''series''] name then Video
         else if test_ci [''audio'', ''sound'', ''music'', ''mp3'', ''wav'', ''flac''] name then Audio
         else if test_ci [''photo'', ''image'', ''picture'', ''img'', ''jpg'', ''camera'', ''raw''] name
           then Photo
         else if test_ci [''archive'', ''backup'', ''old'', ''save''] name then Archive
         else if test_ci [''document'', ''doc'', ''pdf'', ''txt'', ''report''] name then Document
         else Default)"

text \<open>
  The classifier as the specification words it: an ordered table of categories with their
  terms; the first category one of whose terms occurs in the lower-cased name wins.
\<close>

definition category_table :: "(folder_type \<times> string list) list" where
  "category_table =
     [(Video, [''video'', ''movie'', ''film'', ''tv'', ''show'', ''series'']),
      (Audio, [''audio'', ''sound'', ''music'', ''mp3'', ''wav'', ''flac'']),
      (Photo, [''photo'', ''image'', ''picture'', ''img'', ''jpg'', ''camera'', ''raw'']),
      (Archive, [''archive'', ''backup'', ''old'', ''save'']),
      (Document, [''document'', ''doc'', ''pdf'', ''txt'', ''report''])]"

fun first_match :: "(folder_type \<times> string list) list \<Rightarrow> string \<Rightarrow> folder_type" where
  "first_match [] s = Default"
| "first_match ((t, terms) # rest) s =
     (if list_ex (includes_js s) terms then t else first_match rest s)"


section \<open>Build pipeline\<close>

text \<open>
  The file system is a map from paths to text contents. \<open>readFileSync\<close> throws on a
  path that cannot be read and \<open>writeFileSync\<close> on a target that cannot be written.
\<close>

type_synonym filesystem = "string \<rightharpoonup> string"

datatype build_error = ReadFailed string | WriteFailed string

definition files :: "string list" where
  "files = [''src/header.js'', ''src/config.js'', ''src/utils.js'', ''src/dom.js'',
            ''src/ui.js'', ''src/main.js'', ''src/footer.js'']"

definition artifact :: string where
  "artifact = ''NiceThumbsBuddy.user.js''"

definition newline :: string where
  "newline = [CHR 0x0A]"

fun read_all :: "filesystem \<Rightarrow> string list \<Rightarrow> build_error + string list" where
  "read_all fs [] = Inr []"
| "read_all fs (f # rest) =
     (case fs f of
        None \<Rightarrow> Inl (ReadFailed f)
      | Some text \<Rightarrow>
          (case read_all fs rest of Inl e \<Rightarrow> Inl e | Inr texts \<Rightarrow> Inr (text # texts)))"

definition build :: "bool \<Rightarrow> filesystem \<Rightarrow> build_error + filesystem" where
  "build writable fs =
     (case read_all fs files of
        Inl e \<Rightarrow> Inl e
      | Inr texts \<Rightarrow>
          if writable then Inr (fs(artifact \<mapsto> join newline texts))
          else Inl (WriteFailed artifact))"


text \<open>A sample source tree, each fragment one letter long.\<close>

definition demo_fs :: filesystem where
  "demo_fs = [''src/header.js'' \<mapsto> ''H'', ''src/config.js'' \<mapsto> ''C'', ''src/utils.js'' \<mapsto> ''U'',
              ''src/dom.js'' \<mapsto> ''D'', ''src/ui.js'' \<mapsto> ''I'', ''src/main.js'' \<mapsto> ''M'',
              ''src/footer.js'' \<mapsto> ''F'']"


section \<open>Preference store\<close>

text \<open>
  The backing store is chosen once: the script manager's \<open>GM_getValue\<close>/\<open>GM_setValue\<close>
  when both are functions, else \<open>localStorage\<close>. A missing key reads as \<open>undefined\<close>
  from the former and as \<open>null\<close> from the latter. \<open>localStorage.setItem\<close> throws when
  the quota is exceeded; the flag \<open>accepted\<close> says whether the host takes the write.
\<close>

datatype jsvalue = JUndefined | JNull | JString string | JNumber int

datatype backing = GM | LocalStorage

datatype storage_error = QuotaExceededError

type_synonym prefs = "string \<rightharpoonup> string"

definition select_storage :: "bool \<Rightarrow> bool \<Rightarrow> backing" where
  "select_storage has_GM_getValue has_GM_setValue =
     (if has_GM_getValue \<and> has_GM_setValue then GM else LocalStorage)"

definition storage_get :: "backing \<Rightarrow> string \<Rightarrow> prefs \<Rightarrow> jsvalue" where
  "storage_get b k s =
     (case s k of
        Some v \<Rightarrow> JString v
      | None \<Rightarrow> (case b of GM \<Rightarrow> JUndefined | LocalStorage \<Rightarrow> JNull))"

definition storage_set :: "backing \<Rightarrow> bool \<Rightarrow> string \<Rightarrow> string \<Rightarrow> prefs \<Rightarrow> storage_error + prefs" where
  "storage_set b accepted k v s =
     (case b of
        GM \<Rightarrow> Inr (s(k \<mapsto> v))
      | LocalStorage \<Rightarrow> if accepted then Inr (s(k \<mapsto> v)) else Inl QuotaExceededError)"

definition getPref :: "backing \<Rightarrow> string \<Rightarrow> jsvalue \<Rightarrow> prefs \<Rightarrow> jsvalue" where
  "getPref b key def s =
     (let v = storage_get b key s
      in if v \<noteq> JUndefined \<and> v \<noteq> JNull then v else def)"

definition setPref :: "backing \<Rightarrow> bool \<Rightarrow> string \<Rightarrow> string \<Rightarrow> prefs \<Rightarrow> storage_error + prefs" where
  "setPref b accepted key val s = storage_set b accepted key val s"


section \<open>Lightbox zoom and pan\<close>

text \<open>
  JavaScript numbers are modelled by \<open>jsnum\<close>: a finite number is a real number, and the
  three special values of the number type are kept apart, with the arithmetic JavaScript
  gives them: a division by zero is an infinity, or \<open>NaN\<close> for \<open>0/0\<close>; zero times an
  infinity is \<open>NaN\<close>; \<open>Math.max\<close> and \<open>Math.min\<close> return \<open>NaN\<close> as soon as an argument
  is \<open>NaN\<close>; every comparison with \<open>NaN\<close> is false. Rounding and overflow of finite
  values are not modelled, and zero carries no sign: a division by zero takes the zero
  as \<open>+0\<close>, which is the zero of the literal \<open>0\<close> and of an empty extent.
\<close>

datatype jsnum = NaN | NegInf | Fin real | PosInf

fun jneg :: "jsnum \<Rightarrow> jsnum" where
  "jneg NaN = NaN"
| "jneg NegInf = PosInf"
| "jneg (Fin a) = Fin (- a)"
| "jneg PosInf = NegInf"

fun jadd :: "jsnum \<Rightarrow> jsnum \<Rightarrow> jsnum" where
  "jadd NaN b = NaN"
| "jadd a NaN = NaN"
| "jadd (Fin a) (Fin b) = Fin (a + b)"
| "jadd (Fin a) b = b"
| "jadd a (Fin b) = a"
| "jadd PosInf PosInf = PosInf"
| "jadd NegInf NegInf = NegInf"
| "jadd PosInf NegInf = NaN"
| "jadd NegInf PosInf = NaN"

definition jsub :: "jsnum \<Rightarrow> jsnum \<Rightarrow> jsnum" where
  "jsub a b = jadd a (jneg b)"

text \<open>The infinity with the sign of \<open>a\<close>, for \<open>a\<close> not zero.\<close>

definition signed_inf :: "real \<Rightarrow> jsnum" where
  "signed_inf a = (if 0 < a then PosInf else NegInf)"

fun jmul :: "jsnum \<Rightarrow> jsnum \<Rightarrow> jsnum" where
  "jmul NaN b = NaN"
| "jmul a NaN = NaN"
| "jmul (Fin a) (Fin b) = Fin (a * b)"
| "jmul (Fin a) PosInf = (if a = 0 then NaN else signed_inf a)"
| "jmul (Fin a) NegInf = (if a = 0 then NaN else signed_inf (- a))"
| "jmul PosInf (Fin b) = (if b = 0 then NaN else signed_inf b)"
| "jmul NegInf (Fin b) = (if b = 0 then NaN else signed_inf (- b))"
| "jmul PosInf PosInf = PosInf"
| "jmul NegInf NegInf = PosInf"
| "jmul PosInf NegInf = NegInf"
| "jmul NegInf PosInf = NegInf"

fun jdiv :: "jsnum \<Rightarrow> jsnum \<Rightarrow> jsnum" where
  "jdiv NaN b = NaN"
| "jdiv a NaN = NaN"
| "jdiv (Fin a) (Fin b) =
     (if b = 0 then (if a = 0 then NaN else signed_inf a) else Fin (a / b))"
| "jdiv (Fin a) b = Fin 0"
| "jdiv PosInf (Fin b) = (if 0 \<le> b then PosInf else NegInf)"
| "jdiv NegInf (Fin b) = (if 0 \<le> b then NegInf else PosInf)"
| "jdiv a b = NaN"

text \<open>\<open>Math.max\<close>, \<open>Math.min\<close> and \<open>Math.abs\<close>.\<close>

fun jmax :: "jsnum \<Rightarrow> jsnum \<Rightarrow> jsnum" where
  "jmax NaN b = NaN"
| "jmax a NaN = NaN"
| "jmax PosInf b = PosInf"
| "jmax a PosInf = PosInf"
| "jmax NegInf b = b"
| "jmax a NegInf = a"
| "jmax (Fin a) (Fin b) = Fin (max a b)"

fun jmin :: "jsnum \<Rightarrow> jsnum \<Rightarrow> jsnum" where
  "jmin NaN b = NaN"
| "jmin a NaN = NaN"
| "jmin NegInf b = NegInf"
| "jmin a NegInf = NegInf"
| "jmin PosInf b = b"
| "jmin a PosInf = a"
| "jmin (Fin a) (Fin b) = Fin (min a b)"


text \<open>The comparison \<open>a <= b\<close>.\<close>

fun jle :: "jsnum \<Rightarrow> jsnum \<Rightarrow> bool" where
  "jle NaN b = False"
| "jle a NaN = False"
| "jle NegInf b = True"
| "jle a PosInf = True"
| "jle (Fin a) (Fin b) = (a \<le> b)"
| "jle a b = False"

text \<open>
  The record \<open>zoomstate\<close> is the object \<open>st\<close> of \<open>setupLightbox\<close>; \<open>wrapgeom\<close> holds
  what the browser reports for the zoom wrapper at the time of an event (\<open>clientWidth\<close>,
  \<open>clientHeight\<close> and the rectangle of \<open>getBoundingClientRect\<close>, all finite);
  \<open>lightbox\<close> adds the closure variables of the handlers: the last mouse position, the
  wheel mode, and one entry \<open>(sx, sy, ox, oy)\<close> for every \<open>pointermove\<close> listener
  currently registered. The coordinates an event carries are finite.
\<close>

record zoomstate =
  st_z :: jsnum
  st_x :: jsnum
  st_y :: jsnum
  st_min :: jsnum
  st_max :: jsnum
  st_w :: jsnum
  st_h :: jsnum

record wrapgeom =
  clientWidth :: real
  clientHeight :: real
  r_left :: real
  r_top :: real
  r_width :: real
  r_height :: real

record lightbox =
  st :: zoomstate
  innerCX :: real
  innerCY :: real
  allowPlainWheel :: bool
  drags :: "(real \<times> real \<times> jsnum \<times> jsnum) list"

datatype lb_event =
    Click string
  | Key0
  | MouseMove real real
  | Wheel bool bool real real real
  | PointerDown real real
  | PointerMove real real
  | PointerUp

definition clamp :: "jsnum \<Rightarrow> jsnum \<Rightarrow> jsnum \<Rightarrow> jsnum" where
  "clamp v mn mx = jmax mn (jmin mx v)"




definition clampPan :: "wrapgeom \<Rightarrow> zoomstate \<Rightarrow> zoomstate" where
  "clampPan g s =
     (let vw = Fin (clientWidth g); vh = Fin (clientHeight g);
          iw = jmul (st_w s) (st_z s); ih = jmul (st_h s) (st_z s);
          limX = jmax (Fin 0) (jdiv (jsub iw vw) (Fin 2));
          limY = jmax (Fin 0) (jdiv (jsub ih vh) (Fin 2))
      in s\<lparr>st_x := clamp (st_x s) (jneg limX) limX, st_y := clamp (st_y s) (jneg limY) limY\<rparr>)"

definition zoomTo :: "wrapgeom \<Rightarrow> jsnum \<Rightarrow> real \<Rightarrow> real \<Rightarrow> zoomstate \<Rightarrow> zoomstate" where
  "zoomTo g z cx cy s =
     (let px = jdiv (jsub (jsub (Fin cx) (Fin (r_left g))) (st_x s)) (st_z s);
          py = jdiv (jsub (jsub (Fin cy) (Fin (r_top g))) (st_y s)) (st_z s);
          nz = clamp z (st_min s) (st_max s)
      in clampPan g (s\<lparr>st_x := jsub (jsub (Fin cx) (Fin (r_left g))) (jmul px nz),
                        st_y := jsub (jsub (Fin cy) (Fin (r_top g))) (jmul py nz),
                        st_z := nz\<rparr>))"

definition recenter :: "jsnum \<Rightarrow> zoomstate \<Rightarrow> zoomstate" where
  "recenter z s = s\<lparr>st_z := z, st_x := Fin 0, st_y := Fin 0\<rparr>"

definition click :: "wrapgeom \<Rightarrow> string \<Rightarrow> lightbox \<Rightarrow> lightbox" where
  "click g act lb =
     (let s = st lb
      in if act = ''fit''
         then lb\<lparr>st := recenter (jmin (jdiv (Fin (r_width g)) (st_w s))
                                       (jdiv (Fin (r_height g)) (st_h s))) s\<rparr>
         else if act = ''fill''
         then lb\<lparr>st := recenter (jmax (jdiv (Fin (r_width g)) (st_w s))
                                       (jdiv (Fin (r_height g)) (st_h s))) s\<rparr>
         else if act = ''100'' then lb\<lparr>st := recenter (Fin 1) s\<rparr>
         else if act = ''+''
         then lb\<lparr>st := zoomTo g (jmul (st_z s) (Fin (11/10))) (innerCX lb) (innerCY lb) s\<rparr>
         else if act = ''-''
         then lb\<lparr>st := zoomTo g (jdiv (st_z s) (Fin (11/10))) (innerCX lb) (innerCY lb) s\<rparr>
         else if act = ''reset'' then lb\<lparr>st := recenter (Fin 1) s\<rparr>
         else lb)"

definition wheel :: "wrapgeom \<Rightarrow> bool \<Rightarrow> bool \<Rightarrow> real \<Rightarrow> real \<Rightarrow> real \<Rightarrow> lightbox \<Rightarrow> lightbox" where
  "wheel g ctrlKey metaKey deltaY clientX clientY lb =
     (let want = (allowPlainWheel lb \<or> ctrlKey \<or> metaKey)
      in if \<not> want then lb
         else lb\<lparr>st := zoomTo g (jmul (st_z (st lb)) (Fin (if deltaY > 0 then 9/10 else 11/10)))
                            clientX clientY (st lb)\<rparr>)"

text \<open>One registered \<open>mv\<close> listener, called with the pointer at \<open>(ex, ey)\<close>.\<close>

definition mv :: "wrapgeom \<Rightarrow> real \<Rightarrow> real \<Rightarrow> zoomstate \<Rightarrow> (real \<times> real \<times> jsnum \<times> jsnum) \<Rightarrow> zoomstate" where
  "mv g ex ey s d =
     (case d of (sx, sy, ox, oy) \<Rightarrow>
        clampPan g (s\<lparr>st_x := jadd ox (jsub (Fin ex) (Fin sx)),
                      st_y := jadd oy (jsub (Fin ey) (Fin sy))\<rparr>))"

fun handle :: "wrapgeom \<Rightarrow> lb_event \<Rightarrow> lightbox \<Rightarrow> lightbox" where
  "handle g (Click act) lb = click g act lb"
| "handle g Key0 lb = lb\<lparr>st := recenter (Fin 1) (st lb)\<rparr>"
| "handle g (MouseMove cx cy) lb = lb\<lparr>innerCX := cx, innerCY := cy\<rparr>"
| "handle g (Wheel c m dy cx cy) lb = wheel g c m dy cx cy lb"
| "handle g (PointerDown sx sy) lb =
     lb\<lparr>drags := drags lb @ [(sx, sy, st_x (st lb), st_y (st lb))]\<rparr>"
| "handle g (PointerMove ex ey) lb = lb\<lparr>st := foldl (mv g ex ey) (st lb) (drags lb)\<rparr>"
| "handle g PointerUp lb = lb\<lparr>drags := []\<rparr>"

fun run :: "(wrapgeom \<times> lb_event) list \<Rightarrow> lightbox \<Rightarrow> lightbox" where
  "run [] lb = lb"
| "run ((g, e) # evs) lb = run evs (handle g e lb)"







section \<open>Metadata cache\<close>

text \<open>
  The cache is a JavaScript \<open>Map\<close>: its entries in insertion order, one per key.
  \<open>saveThrottled\<close> is the persist pass behind \<open>throttle(..., 1000)\<close>: a call less than
  1000 ms after the last pass that ran is dropped. The result of writing the mirror to
  \<open>sessionStorage\<close> is an input of the pass.
\<close>

definition CACHE_MAX_SIZE :: nat where
  "CACHE_MAX_SIZE = 10000"



fun map_set :: "string \<Rightarrow> 'v \<Rightarrow> (string \<times> 'v) list \<Rightarrow> (string \<times> 'v) list" where
  "map_set k v [] = [(k, v)]"
| "map_set k v ((k', v') # rest) =
     (if k' = k then (k, v) # rest else (k', v') # map_set k v rest)"

text \<open>\<open>entries.slice(-n)\<close>: the last \<open>n\<close> entries, all of them when there are fewer.\<close>

definition slice_last :: "nat \<Rightarrow> 'a list \<Rightarrow> 'a list" where
  "slice_last n xs = drop (length xs - n) xs"

definition prune :: "(string \<times> 'v) list \<Rightarrow> (string \<times> 'v) list" where
  "prune c =
     (if length c > CACHE_MAX_SIZE
      then (let toKeep = slice_last (CACHE_MAX_SIZE * 8 div 10) c
            in foldl (\<lambda>acc (k, v). map_set k v acc) [] toKeep)
      else c)"










section \<open>Shuffle\<close>

text \<open>
  Arrays live in a store, addressed by their index in it, so that the copy made by
  \<open>array.slice()\<close> and the caller's array are distinct objects. \<open>Math.random\<close> is the
  stream \<open>rnd\<close>: its \<open>k\<close>-th call returns \<open>rnd k\<close>.
\<close>

type_synonym 'a store = "'a list list"

definition slice :: "nat \<Rightarrow> 'a store \<Rightarrow> (nat \<times> 'a store) option" where
  "slice r hp = (if r < length hp then Some (length hp, hp @ [hp ! r]) else None)"

definition swap :: "nat \<Rightarrow> nat \<Rightarrow> 'a list \<Rightarrow> 'a list" where
  "swap i j a = (a[i := a ! j])[j := a ! i]"

fun shuffle_loop :: "(nat \<Rightarrow> real) \<Rightarrow> nat \<Rightarrow> nat \<Rightarrow> nat \<Rightarrow> 'a store \<Rightarrow> 'a store" where
  "shuffle_loop rnd k 0 a hp = hp"
| "shuffle_loop rnd k (Suc n) a hp =
     (let i = Suc n;
          j = nat \<lfloor>rnd k * real (i + 1)\<rfloor>
      in shuffle_loop rnd (k + 1) n a (hp[a := swap i j (hp ! a)]))"

definition shuffle :: "(nat \<Rightarrow> real) \<Rightarrow> nat \<Rightarrow> 'a store \<Rightarrow> (nat \<times> 'a store) option" where
  "shuffle rnd array hp =
     (case slice array hp of
        None \<Rightarrow> None
      | Some (a, hp1) \<Rightarrow> Some (a, shuffle_loop rnd 0 (length (hp1 ! a) - 1) a hp1))"


section \<open>Whitespace and regular expressions\<close>

text \<open>\<open>\s\<close> and the characters \<open>trim\<close> removes, in the Latin-1 range.\<close>

definition is_space :: "char \<Rightarrow> bool" where
  "is_space c = (let n = (of_char c :: nat) in (9 \<le> n \<and> n \<le> 13) \<or> n = 32 \<or> n = 160)"

definition trim :: "string \<Rightarrow> string" where
  "trim s = rev (dropWhile is_space (rev (dropWhile is_space s)))"

text \<open>\<open>s.split(c)[0]\<close> and \<open>s.split(c).pop()\<close>.\<close>

definition split_first :: "char \<Rightarrow> string \<Rightarrow> string" where
  "split_first c s = takeWhile (\<lambda>x. x \<noteq> c) s"

definition split_last :: "char \<Rightarrow> string \<Rightarrow> string" where
  "split_last c s = rev (takeWhile (\<lambda>x. x \<noteq> c) (rev s))"

text \<open>
  The regular expressions of the detector, read with the \<open>i\<close> flag: character classes,
  sequence, \<open>?\<close>, and \<open>+\<close> and \<open>{n}\<close> applied to a class. \<open>rems r s\<close> lists what can
  remain of \<open>s\<close> after a match of \<open>r\<close> at its start; \<open>regex_test r s\<close> is \<open>r.test(s)\<close>:
  a match starts somewhere.
\<close>

datatype cclass = Digit | Space | NonSpace | Letter | Lit char | OneOfCI string

fun in_class :: "cclass \<Rightarrow> char \<Rightarrow> bool" where
  "in_class Digit c = (48 \<le> (of_char c :: nat) \<and> (of_char c :: nat) \<le> 57)"
| "in_class Space c = is_space c"
| "in_class NonSpace c = (\<not> is_space c)"
| "in_class Letter c =
     ((65 \<le> (of_char c :: nat) \<and> (of_char c :: nat) \<le> 90) \<or>
      (97 \<le> (of_char c :: nat) \<and> (of_char c :: nat) \<le> 122))"
| "in_class (Lit x) c = (c = x)"
| "in_class (OneOfCI xs) c = (lower_char c \<in> set xs)"

datatype rx = Eps | Cls cclass | Seq rx rx | Opt rx | Plus cclass | Times nat cclass

fun plus_rems :: "cclass \<Rightarrow> string \<Rightarrow> string list" where
  "plus_rems k [] = []"
| "plus_rems k (c # cs) = (if in_class k c then cs # plus_rems k cs else [])"

fun times_rems :: "nat \<Rightarrow> cclass \<Rightarrow> string \<Rightarrow> string list" where
  "times_rems n k [] = (if n = 0 then [[]] else [])"
| "times_rems n k (c # cs) =
     (if n = 0 then [c # cs] else if in_class k c then times_rems (n - 1) k cs else [])"

fun rems :: "rx \<Rightarrow> string \<Rightarrow> string list" where
  "rems Eps s = [s]"
| "rems (Cls k) s = (case s of [] \<Rightarrow> [] | c # cs \<Rightarrow> if in_class k c then [cs] else [])"
| "rems (Seq a b) s = concat (map (rems b) (rems a s))"
| "rems (Opt a) s = rems a s @ [s]"
| "rems (Plus k) s = plus_rems k s"
| "rems (Times n k) s = times_rems n k s"

fun regex_test :: "rx \<Rightarrow> string \<Rightarrow> bool" where
  "regex_test r [] = (rems r [] \<noteq> [])"
| "regex_test r (c # cs) = (rems r (c # cs) \<noteq> [] \<or> regex_test r cs)"

definition seqs :: "rx list \<Rightarrow> rx" where
  "seqs rs = foldr Seq rs Eps"

text \<open>\<open>\s+\d{2}:\d{2}\s+\d+(\.\d+)?[KMG]?\s+\S+\<close>, the tail the two date patterns share.\<close>

definition time_size_name :: "rx list" where
  "time_size_name =
     [Plus Space, Times 2 Digit, Cls (Lit (CHR '':'')), Times 2 Digit,
      Plus Space, Plus Digit,
      Opt (Seq (Cls (Lit (CHR ''.''))) (Plus Digit)), Opt (Cls (OneOfCI ''kmg'')),
      Plus Space, Plus NonSpace]"

text \<open>\<open>/\d{4}-\d{2}-\d{2}\s+\d{2}:\d{2}\s+\d+(\.\d+)?[KMG]?\s+\S+/i\<close>\<close>

definition apache_iso :: rx where
  "apache_iso =
     seqs ([Times 4 Digit, Cls (Lit (CHR ''-'')), Times 2 Digit, Cls (Lit (CHR ''-'')),
            Times 2 Digit] @ time_size_name)"

text \<open>\<open>/\d{2}-[A-Za-z]{3}-\d{4}\s+\d{2}:\d{2}\s+\d+(\.\d+)?[KMG]?\s+\S+/i\<close>\<close>

definition apache_mon :: rx where
  "apache_mon =
     seqs ([Times 2 Digit, Cls (Lit (CHR ''-'')), Times 3 Letter, Cls (Lit (CHR ''-'')),
            Times 4 Digit] @ time_size_name)"


section \<open>Documents\<close>

text \<open>
  A document is its title (\<open>doc.title\<close>) and its tree of nodes: text nodes and elements
  with a lower-case tag name, attributes and children. The functions below are
  \<open>querySelectorAll\<close> (document order) and \<open>querySelector\<close> for the selectors the
  userscript uses.
\<close>

datatype node = Text string | Element string "(string \<times> string) list" "node list"

record document =
  doc_title :: string
  doc_children :: "node list"

fun textContent :: "node \<Rightarrow> string" where
  "textContent (Text s) = s"
| "textContent (Element t as cs) = concat (map textContent cs)"

fun getAttribute :: "node \<Rightarrow> string \<Rightarrow> string option" where
  "getAttribute (Text s) n = None"
| "getAttribute (Element t as cs) n = map_of as n"

fun is_tag :: "string \<Rightarrow> node \<Rightarrow> bool" where
  "is_tag t (Text s) = False"
| "is_tag t (Element t' as cs) = (t' = t)"

fun elements :: "node \<Rightarrow> node list" where
  "elements (Text s) = []"
| "elements (Element t as cs) = Element t as cs # concat (map elements cs)"

definition all_elements :: "document \<Rightarrow> node list" where
  "all_elements d = concat (map elements (doc_children d))"

text \<open>\<open>$$(t, doc)\<close> and \<open>$(t, doc)\<close> for a tag name \<open>t\<close>.\<close>

definition qsa_tag :: "string \<Rightarrow> document \<Rightarrow> node list" where
  "qsa_tag t d = filter (is_tag t) (all_elements d)"

definition qs_tag :: "string \<Rightarrow> document \<Rightarrow> node option" where
  "qs_tag t d = (case qsa_tag t d of [] \<Rightarrow> None | n # ns \<Rightarrow> Some n)"

definition is_a_href :: "node \<Rightarrow> bool" where
  "is_a_href n = (is_tag ''a'' n \<and> getAttribute n ''href'' \<noteq> None)"

text \<open>\<open>$$('a[href]', doc)\<close>\<close>

definition qsa_a_href :: "document \<Rightarrow> node list" where
  "qsa_a_href d = filter is_a_href (all_elements d)"

text \<open>\<open>$$('anc a[href]', doc)\<close>: the \<open>a[href]\<close> elements with an ancestor of tag \<open>anc\<close>.\<close>

fun under :: "string \<Rightarrow> bool \<Rightarrow> node \<Rightarrow> node list" where
  "under anc inside (Text s) = []"
| "under anc inside (Element t as cs) =
     (if inside \<and> is_a_href (Element t as cs) then [Element t as cs] else [])
     @ concat (map (under anc (inside \<or> t = anc)) cs)"

definition qsa_under :: "string \<Rightarrow> document \<Rightarrow> node list" where
  "qsa_under anc d = concat (map (under anc False) (doc_children d))"

text \<open>
  \<open>$$('th, td:first-child', doc)\<close>: \<open>first\<close> says whether the node is the first element
  among its siblings.
\<close>

fun cells :: "bool \<Rightarrow> node \<Rightarrow> node list"
  and sibling_cells :: "bool \<Rightarrow> node list \<Rightarrow> node list" where
  "cells first (Text s) = []"
| "cells first (Element t as cs) =
     (if t = ''th'' \<or> (t = ''td'' \<and> first) then [Element t as cs] else [])
     @ sibling_cells True cs"
| "sibling_cells first [] = []"
| "sibling_cells first (Text s # ns) = sibling_cells first ns"
| "sibling_cells first (Element t as cs # ns) =
     cells first (Element t as cs) @ sibling_cells False ns"

definition qsa_cells :: "document \<Rightarrow> node list" where
  "qsa_cells d = sibling_cells True (doc_children d)"


section \<open>Host functions\<close>

text \<open>
  What the browser computes is a parameter of the model: \<open>href_of\<close> gives an anchor's
  \<open>href\<close> property from its attribute (the URL resolved against the document's base);
  \<open>new_URL href base\<close> is \<open>new URL(href, base).href\<close>, \<open>None\<close> when the constructor
  throws; \<open>decodeURIComponent\<close> is \<open>None\<close> when it throws \<open>URIError\<close>;
  \<open>extractRowMeta i a\<close> is the row metadata found for the \<open>i\<close>-th selected anchor
  \<open>a\<close>; \<open>nat_compare\<close> is the collator's comparison \<open>nat\<close> of two names.
\<close>

record 'm host =
  href_of :: "string \<Rightarrow> string"
  new_URL :: "string \<Rightarrow> string \<Rightarrow> string option"
  decodeURIComponent :: "string \<Rightarrow> string option"
  extractRowMeta :: "nat \<Rightarrow> node \<Rightarrow> 'm"
  nat_compare :: "string \<Rightarrow> string \<Rightarrow> int"

definition a_href :: "'m host \<Rightarrow> node \<Rightarrow> string" where
  "a_href h a = (case getAttribute a ''href'' of None \<Rightarrow> [] | Some v \<Rightarrow> href_of h v)"

definition isFunctionalLink :: "'m host \<Rightarrow> node \<Rightarrow> bool" where
  "isFunctionalLink h a =
     (a_href h a \<noteq> [] \<and> \<not> startsWith (a_href h a) ''mailto:''
      \<and> \<not> startsWith (a_href h a) ''javascript:'')"

definition abs_url :: "'m host \<Rightarrow> string \<Rightarrow> string \<Rightarrow> string" where
  "abs_url h href base = (case new_URL h href base of Some u \<Rightarrow> u | None \<Rightarrow> href)"


section \<open>Autoindex detector\<close>

definition hasIndexTitle :: "document \<Rightarrow> bool" where
  "hasIndexTitle d =
     (let t = toLowerCase (doc_title d)
      in startsWith t ''index of '' \<or> includes_js t ''autoindex'' \<or> test_ci [''directory''] t)"

definition hasParentLink :: "document \<Rightarrow> bool" where
  "hasParentLink d =
     list_ex (\<lambda>a. test_ci [''parent directory''] (textContent a)) (qsa_tag ''a'' d)"

definition hasPre :: "document \<Rightarrow> bool" where
  "hasPre d = (qs_tag ''pre'' d \<noteq> None)"

definition hasTable :: "document \<Rightarrow> bool" where
  "hasTable d = (qs_tag ''table'' d \<noteq> None)"

definition fileish :: "'m host \<Rightarrow> document \<Rightarrow> node list" where
  "fileish h d = filter (isFunctionalLink h) (qsa_a_href d)"

definition pre_pattern :: "document \<Rightarrow> bool" where
  "pre_pattern d =
     (case qs_tag ''pre'' d of
        None \<Rightarrow> False
      | Some pre \<Rightarrow>
          (let preText = textContent pre
           in regex_test apache_iso preText \<or> regex_test apache_mon preText))"

definition table_pattern :: "document \<Rightarrow> bool" where
  "table_pattern d =
     (let headings = map (\<lambda>el. toLowerCase (trim (textContent el))) (qsa_cells d)
      in list_ex (test_ci [''name'', ''last modified'', ''size'', ''description'']) headings)"

definition looksLikeAutoIndex :: "'m host \<Rightarrow> document \<Rightarrow> bool" where
  "looksLikeAutoIndex h d =
     (let many = (length (fileish h d) \<ge> 3);
          hasDirectoryPattern = False;
          hasDirectoryPattern = (if hasPre d then pre_pattern d else hasDirectoryPattern);
          hasDirectoryPattern = (if hasTable d then table_pattern d else hasDirectoryPattern)
      in (hasIndexTitle d \<or> hasParentLink d \<or> hasDirectoryPattern \<or> (hasPre d \<and> hasTable d))
         \<and> many)"

text \<open>The detector of the modular fragment \<open>src/dom.js\<close>, which has no content-pattern check.\<close>

definition looksLikeAutoIndex_dom :: "'m host \<Rightarrow> document \<Rightarrow> bool" where
  "looksLikeAutoIndex_dom h d =
     (let many = (length (fileish h d) \<ge> 3)
      in (hasIndexTitle d \<or> hasParentLink d \<or> (hasPre d \<and> hasTable d)) \<and> many)"


section \<open>The detector's decision, as specified\<close>

text \<open>
  The cues of the specification, stated over the document itself and without the
  detector's functions. The elements of a document form a multiset (every occurrence
  counts); \<open>first_elem P\<close> is the first element of a depth-first walk, which is the
  first in document order, that satisfies \<open>P\<close>; an element is a first child when it is the
  first element among the children of its parent, the document or an element.
\<close>

fun elems :: "node \<Rightarrow> node multiset" where
  "elems (Text s) = {#}"
| "elems (Element t as cs) = add_mset (Element t as cs) (sum_list (map elems cs))"

definition doc_elems :: "document \<Rightarrow> node multiset" where
  "doc_elems d = sum_list (map elems (doc_children d))"

fun first_elem :: "(node \<Rightarrow> bool) \<Rightarrow> node list \<Rightarrow> node option" where
  "first_elem P [] = None"
| "first_elem P (Text s # ns) = first_elem P ns"
| "first_elem P (Element t as cs # ns) =
     (if P (Element t as cs) then Some (Element t as cs)
      else case first_elem P cs of Some m \<Rightarrow> Some m | None \<Rightarrow> first_elem P ns)"

fun is_element :: "node \<Rightarrow> bool" where
  "is_element (Text s) = False"
| "is_element (Element t as cs) = True"

fun children_of :: "node \<Rightarrow> node list" where
  "children_of (Text s) = []"
| "children_of (Element t as cs) = cs"

definition child_lists :: "document \<Rightarrow> node list set" where
  "child_lists d = insert (doc_children d) (children_of ` set_mset (doc_elems d))"

definition first_child :: "document \<Rightarrow> node \<Rightarrow> bool" where
  "first_child d n = (\<exists>cs \<in> child_lists d. find is_element cs = Some n)"

text \<open>\<open>s\<close> contains the lower-case word \<open>w\<close>, letters compared without case.\<close>

definition contains_ci :: "string \<Rightarrow> string \<Rightarrow> bool" where
  "contains_ci w s = sublist w (map lower_char s)"

text \<open>
  An index-style title starts with \<open>index of \<close>, or contains \<open>autoindex\<close> or
  \<open>directory\<close>, without regard to case.
\<close>

definition index_title :: "document \<Rightarrow> bool" where
  "index_title d =
     (prefix ''index of '' (map lower_char (doc_title d))
      \<or> contains_ci ''autoindex'' (doc_title d) \<or> contains_ci ''directory'' (doc_title d))"

definition parent_anchor :: "document \<Rightarrow> bool" where
  "parent_anchor d =
     (\<exists>n \<in># doc_elems d. is_tag ''a'' n \<and> contains_ci ''parent directory'' (textContent n))"

definition pre_block :: "document \<Rightarrow> bool" where
  "pre_block d = (\<exists>n \<in># doc_elems d. is_tag ''pre'' n)"

definition table_block :: "document \<Rightarrow> bool" where
  "table_block d = (\<exists>n \<in># doc_elems d. is_tag ''table'' n)"

text \<open>
  A functional anchor is an \<open>a\<close> element with an \<open>href\<close> attribute whose resolved target
  is not empty and starts with neither \<open>mailto:\<close> nor \<open>javascript:\<close>.
\<close>

definition functional_anchor :: "'m host \<Rightarrow> node \<Rightarrow> bool" where
  "functional_anchor h n =
     (is_tag ''a'' n \<and>
      (case getAttribute n ''href'' of
         None \<Rightarrow> False
       | Some v \<Rightarrow> href_of h v \<noteq> [] \<and> \<not> prefix ''mailto:'' (href_of h v)
                    \<and> \<not> prefix ''javascript:'' (href_of h v)))"

definition functional_count :: "'m host \<Rightarrow> document \<Rightarrow> nat" where
  "functional_count h d = size (filter_mset (functional_anchor h) (doc_elems d))"

text \<open>
  The tokens of a listing line, as sets of strings: \<open>conc\<close> puts one after the other,
  \<open>chars P n\<close> is \<open>n\<close> characters of the kind \<open>P\<close>, \<open>chars1 P\<close> one or more of them.
  A listing token is a date, \<open>YYYY-MM-DD\<close> or \<open>DD-Mon-YYYY\<close>, a time \<open>HH:MM\<close>, a size
  (digits, with an optional fraction and an optional unit \<open>K\<close>, \<open>M\<close> or \<open>G\<close> of either
  case) and a file name (characters other than white space), with white space between
  them.
\<close>

definition conc :: "string set \<Rightarrow> string set \<Rightarrow> string set" where
  "conc A B = {a @ b | a b. a \<in> A \<and> b \<in> B}"

definition concs :: "string set list \<Rightarrow> string set" where
  "concs As = foldr conc As {[]}"

definition chars :: "(char \<Rightarrow> bool) \<Rightarrow> nat \<Rightarrow> string set" where
  "chars P n = {s. length s = n \<and> (\<forall>c \<in> set s. P c)}"

definition chars1 :: "(char \<Rightarrow> bool) \<Rightarrow> string set" where
  "chars1 P = {s. s \<noteq> [] \<and> (\<forall>c \<in> set s. P c)}"

definition optional :: "string set \<Rightarrow> string set" where
  "optional A = insert [] A"

definition is_digit :: "char \<Rightarrow> bool" where
  "is_digit c = (c \<in> set ''0123456789'')"

definition is_letter :: "char \<Rightarrow> bool" where
  "is_letter c = (c \<in> set ''abcdefghijklmnopqrstuvwxyzABCDEFGHIJKLMNOPQRSTUVWXYZ'')"

definition iso_date :: "string set" where
  "iso_date = concs [chars is_digit 4, {''-''}, chars is_digit 2, {''-''}, chars is_digit 2]"

definition mon_date :: "string set" where
  "mon_date = concs [chars is_digit 2, {''-''}, chars is_letter 3, {''-''}, chars is_digit 4]"

definition clock_time :: "string set" where
  "clock_time = concs [chars is_digit 2, {'':''}, chars is_digit 2]"

definition size_token :: "string set" where
  "size_token =
     concs [chars1 is_digit, optional (conc {''.''} (chars1 is_digit)),
            optional (chars (\<lambda>c. c \<in> set ''kmgKMG'') 1)]"

definition file_name :: "string set" where
  "file_name = chars1 (\<lambda>c. \<not> is_space c)"

definition listing_token :: "string set" where
  "listing_token =
     concs [iso_date \<union> mon_date, chars1 is_space, clock_time, chars1 is_space, size_token,
            chars1 is_space, file_name]"

definition contains_listing :: "string \<Rightarrow> bool" where
  "contains_listing s = (\<exists>u m v. s = u @ m @ v \<and> m \<in> listing_token)"

text \<open>The strings a regular expression matches.\<close>

fun lang :: "rx \<Rightarrow> string set" where
  "lang Eps = {[]}"
| "lang (Cls k) = chars (in_class k) 1"
| "lang (Seq a b) = conc (lang a) (lang b)"
| "lang (Opt a) = optional (lang a)"
| "lang (Plus k) = chars1 (in_class k)"
| "lang (Times n k) = chars (in_class k) n"

text \<open>
  The content pattern of a preformatted block: the text of the document's first \<open>pre\<close>
  element contains a listing token, whose white space may include line breaks.
\<close>

definition pre_cue :: "document \<Rightarrow> bool" where
  "pre_cue d =
     (\<exists>n. first_elem (is_tag ''pre'') (doc_children d) = Some n \<and> contains_listing (textContent n))"

text \<open>
  The content pattern of a table: the document has a table, and the text of a \<open>th\<close>
  element, or of a \<open>td\<close> element that is a first child, contains one of the column words.
\<close>

definition column_words :: "string list" where
  "column_words = [''name'', ''last modified'', ''size'', ''description'']"

definition table_cue :: "document \<Rightarrow> bool" where
  "table_cue d =
     (table_block d \<and>
      (\<exists>n \<in># doc_elems d. (is_tag ''th'' n \<or> (is_tag ''td'' n \<and> first_child d n))
          \<and> (\<exists>w \<in> set column_words. contains_ci w (textContent n))))"

text \<open>
  The decision of the userscript's detector, and that of the detector of \<open>src/dom.js\<close>,
  which looks at no content pattern.
\<close>

definition spec_detector :: "'m host \<Rightarrow> document \<Rightarrow> bool" where
  "spec_detector h d =
     ((index_title d \<or> parent_anchor d \<or> (pre_cue d \<or> table_cue d)
         \<or> (pre_block d \<and> table_block d))
      \<and> 3 \<le> functional_count h d)"

definition spec_detector_dom :: "'m host \<Rightarrow> document \<Rightarrow> bool" where
  "spec_detector_dom h d =
     ((index_title d \<or> parent_anchor d \<or> (pre_block d \<and> table_block d))
      \<and> 3 \<le> functional_count h d)"

text \<open>
  The decision as the specification words it, for both detectors: its content pattern of a
  preformatted block is a line of a \<open>pre\<close> element that contains a listing token.
\<close>

fun lines_of :: "string \<Rightarrow> string list" where
  "lines_of [] = [[]]"
| "lines_of (c # cs) =
     (if c = CHR 0x0A then [] # lines_of cs
      else (case lines_of cs of [] \<Rightarrow> [[c]] | l # ls \<Rightarrow> (c # l) # ls))"

definition pre_line_cue :: "document \<Rightarrow> bool" where
  "pre_line_cue d =
     (\<exists>n \<in># doc_elems d. is_tag ''pre'' n
         \<and> (\<exists>l \<in> set (lines_of (textContent n)). contains_listing l))"

definition claimed_detector :: "'m host \<Rightarrow> document \<Rightarrow> bool" where
  "claimed_detector h d =
     ((index_title d \<or> parent_anchor d \<or> (pre_line_cue d \<or> table_cue d)
         \<or> (pre_block d \<and> table_block d))
      \<and> 3 \<le> functional_count h d)"


section \<open>Sample documents\<close>

text \<open>A sample host and a sample Apache-style listing with two links to the same image.\<close>

definition demo_resolve :: "string \<Rightarrow> string \<Rightarrow> string" where
  "demo_resolve href base = (if includes_js href '':'' then href else base @ href)"

definition demo_host :: "unit host" where
  "demo_host = \<lparr>href_of = (\<lambda>v. demo_resolve v ''http://h/d/''),
                 new_URL = (\<lambda>href base. Some (demo_resolve href base)),
                 decodeURIComponent = Some,
                 extractRowMeta = (\<lambda>i a. ()),
                 nat_compare = (\<lambda>a b. int (length a) - int (length b))\<rparr>"

definition anchor :: "string \<Rightarrow> string \<Rightarrow> node" where
  "anchor href txt = Element ''a'' [(''href'', href)] [Text txt]"

definition demo_doc :: document where
  "demo_doc = \<lparr>doc_title = ''Index of /photos/'',
     doc_children = [Element ''html'' [] [Element ''body'' [] [
        Element ''h1'' [] [Text ''Index of /photos/''],
        Element ''pre'' [] [
          anchor ''../'' ''Parent Directory'', Text [CHR 0x0A],
          anchor ''b.jpg'' ''b.jpg'', Text ''  2024-01-02 10:30  12K  b.jpg'',
          anchor ''sub/'' ''sub/'', Text [CHR 0x0A],
          anchor ''a.jpg'' ''first'', Text [CHR 0x0A],
          anchor ''a.jpg'' ''second name'', Text [CHR 0x0A],
          anchor ''notes.txt'' ''notes.txt'', Text [CHR 0x0A],
          anchor ''doc.pdf'' ''doc.pdf'']]]]\<rparr>"


section \<open>Listing parser\<close>

definition MAX_ITEMS_PAGE :: nat where
  "MAX_ITEMS_PAGE = 12000"

datatype entry_kind = Dir | Img | File

record 'm entry =
  e_kind :: entry_kind
  e_url :: string
  e_name :: string
  e_type :: "folder_type option"
  e_ext :: "string option"
  e_meta :: "'m option"

record 'm listing =
  dirs :: "'m entry list"
  images :: "'m entry list"
  files_of :: "'m entry list"

text \<open>\<open>/\.(e1|...|en)$/i.test(s)\<close>\<close>

definition ext_test :: "string list \<Rightarrow> string \<Rightarrow> bool" where
  "ext_test exts s = list_ex (\<lambda>e. endsWith (toLowerCase s) (CHR ''.'' # e)) exts"

definition IMG_EXT :: "string list" where
  "IMG_EXT = [''avif'', ''webp'', ''jpg'', ''jpeg'', ''png'', ''gif'', ''bmp'', ''svg'']"

definition FILE_EXT :: "string list" where
  "FILE_EXT = [''avif'', ''webp'', ''jpg'', ''jpeg'', ''png'', ''gif'', ''bmp'', ''svg'', ''heic'',
               ''tif'', ''tiff'', ''mp4'', ''mov'', ''webm'', ''mkv'', ''pdf'', ''zip'', ''rar'',
               ''7z'', ''tar'', ''gz'']"

definition isDirHref :: "string \<Rightarrow> bool" where
  "isDirHref href = endsWith (split_first (CHR ''?'') (split_first (CHR ''#'') href)) ''/''"

definition isImgHref :: "string \<Rightarrow> bool" where
  "isImgHref href = ext_test IMG_EXT (split_first (CHR ''?'') href)"

definition isFileHref :: "string \<Rightarrow> bool" where
  "isFileHref href = ext_test FILE_EXT (split_first (CHR ''?'') href)"

definition getExt :: "string \<Rightarrow> string" where
  "getExt url =
     (let filename = split_last (CHR ''/'') url
      in if CHR ''.'' \<in> set filename then toLowerCase (split_last (CHR ''.'') filename) else [])"

text \<open>The three selector strategies, tried in order until one yields an anchor.\<close>

definition select_anchors :: "document \<Rightarrow> node list" where
  "select_anchors d =
     (if qsa_under ''pre'' d \<noteq> [] then qsa_under ''pre'' d
      else if qsa_under ''table'' d \<noteq> [] then qsa_under ''table'' d
      else qsa_a_href d)"

definition total :: "'m listing \<Rightarrow> nat" where
  "total acc = length (dirs acc) + length (images acc) + length (files_of acc)"

text \<open>
  The display name of an anchor: its text, or else the decoded last segment of the URL
  (\<open>None\<close> when decoding throws), trimmed, and without one trailing slash.
\<close>

definition entry_name :: "'m host \<Rightarrow> node \<Rightarrow> string \<Rightarrow> string option" where
  "entry_name h a url =
     (case (if textContent a \<noteq> [] then Some (textContent a)
            else decodeURIComponent h (split_last (CHR ''/'') url)) of
        None \<Rightarrow> None
      | Some raw \<Rightarrow>
          (let name = trim raw
           in Some (if endsWith name ''/'' then butlast name else name)))"

text \<open>The pushes of one loop iteration, for an anchor that passed the guards.\<close>

definition push :: "'m host \<Rightarrow> nat \<Rightarrow> node \<Rightarrow> string \<Rightarrow> string \<Rightarrow> string \<Rightarrow> 'm listing \<Rightarrow> 'm listing" where
  "push h i a href url name acc =
     (let meta = extractRowMeta h i a
      in if isDirHref href
         then acc\<lparr>dirs := dirs acc @
                [\<lparr>e_kind = Dir, e_url = url, e_name = name, e_type = Some (getFolderType name),
                  e_ext = None, e_meta = None\<rparr>]\<rparr>
         else if isImgHref href
         then acc\<lparr>images := images acc @
                [\<lparr>e_kind = Img, e_url = url, e_name = name, e_type = None,
                  e_ext = Some (getExt url), e_meta = Some meta\<rparr>]\<rparr>
         else if isFileHref href
         then acc\<lparr>files_of := files_of acc @
                [\<lparr>e_kind = File, e_url = url, e_name = name, e_type = None,
                  e_ext = Some (getExt url), e_meta = Some meta\<rparr>]\<rparr>
         else acc)"

text \<open>
  The loop over the selected anchors, from the \<open>i\<close>-th on; \<open>None\<close> when an iteration
  throws.
\<close>

fun accumulate :: "'m host \<Rightarrow> string \<Rightarrow> nat \<Rightarrow> node list \<Rightarrow> 'm listing \<Rightarrow> 'm listing option" where
  "accumulate h baseUrl i [] acc = Some acc"
| "accumulate h baseUrl i (a # rest) acc =
     (let href = (case getAttribute a ''href'' of None \<Rightarrow> [] | Some v \<Rightarrow> v)
      in if href = [] \<or> href = ''../'' \<or> href = ''./'' \<or> href = ''/''
         then accumulate h baseUrl (i + 1) rest acc
         else
           let url = abs_url h href baseUrl
           in if \<not> isFunctionalLink h a then accumulate h baseUrl (i + 1) rest acc
              else
                case entry_name h a url of
                  None \<Rightarrow> None
                | Some name \<Rightarrow>
                    if name = [] then accumulate h baseUrl (i + 1) rest acc
                    else
                      let acc' = push h i a href url name acc
                      in if total acc' \<ge> MAX_ITEMS_PAGE then Some acc'
                         else accumulate h baseUrl (i + 1) rest acc')"

text \<open>\<open>uniq\<close>: the filter with the set of URLs seen so far.\<close>

fun uniq_from :: "string set \<Rightarrow> 'm entry list \<Rightarrow> 'm entry list" where
  "uniq_from seen [] = []"
| "uniq_from seen (x # xs) =
     (if e_url x \<in> seen then uniq_from seen xs else x # uniq_from (insert (e_url x) seen) xs)"

definition uniq :: "'m entry list \<Rightarrow> 'm entry list" where
  "uniq arr = uniq_from {} arr"

text \<open>
  \<open>Array.prototype.sort\<close> with a comparator, as a stable insertion sort: \<open>x\<close> goes
  before \<open>y\<close> when \<open>cmp x y \<le> 0\<close>.
\<close>

fun insert_by :: "('a \<Rightarrow> 'a \<Rightarrow> int) \<Rightarrow> 'a \<Rightarrow> 'a list \<Rightarrow> 'a list" where
  "insert_by cmp x [] = [x]"
| "insert_by cmp x (y # ys) = (if cmp x y \<le> 0 then x # y # ys else y # insert_by cmp x ys)"

definition sort_by :: "('a \<Rightarrow> 'a \<Rightarrow> int) \<Rightarrow> 'a list \<Rightarrow> 'a list" where
  "sort_by cmp xs = foldr (insert_by cmp) xs []"

definition byName :: "'m host \<Rightarrow> 'm entry \<Rightarrow> 'm entry \<Rightarrow> int" where
  "byName h a b = nat_compare h (e_name a) (e_name b)"

definition empty_listing :: "'m listing" where
  "empty_listing = \<lparr>dirs = [], images = [], files_of = []\<rparr>"

definition parseIndex :: "'m host \<Rightarrow> document \<Rightarrow> string \<Rightarrow> 'm listing option" where
  "parseIndex h doc baseUrl =
     (case accumulate h baseUrl 0 (select_anchors doc) empty_listing of
        None \<Rightarrow> None
      | Some acc \<Rightarrow>
          Some \<lparr>dirs = sort_by (byName h) (uniq (dirs acc)),
                images = sort_by (byName h) (uniq (images acc)),
                files_of = sort_by (byName h) (uniq (files_of acc))\<rparr>)"

text \<open>A page that is no listing: two functional anchors and a mail link.\<close>

definition sparse_doc :: document where
  "sparse_doc = \<lparr>doc_title = ''Welcome'',
     doc_children = [Element ''html'' [] [Element ''body'' [] [
        Element ''p'' [] [anchor ''a.html'' ''one'', anchor ''mailto:me@example.org'' ''mail'',
                          anchor ''b.html'' ''two'']]]]\<rparr>"

text \<open>
  A page with a listing in a preformatted block and a table whose cells name no column:
  the table test replaces the result of the block test.
\<close>

definition mixed_doc :: document where
  "mixed_doc = \<lparr>doc_title = ''Files'',
     doc_children = [Element ''html'' [] [Element ''body'' [] [
        Element ''pre'' [] [anchor ''x.zip'' ''x.zip'', Text ''  2024-01-02 10:30  1K  x.zip''],
        Element ''table'' [] [Element ''tr'' [] [
          Element ''td'' [] [anchor ''y.zip'' ''y.zip''], Element ''td'' [] [Text ''2 KB'']]],
        anchor ''z.zip'' ''z.zip'']]]\<rparr>"

text \<open>What the parser returns for the sample listing; an image anchor and its entry.\<close>

definition demo_listing :: "unit listing" where
  "demo_listing =
     \<lparr>dirs = [\<lparr>e_kind = Dir, e_url = ''http://h/d/sub/'', e_name = ''sub'',
                e_type = Some Default, e_ext = None, e_meta = None\<rparr>],
      images = [\<lparr>e_kind = Img, e_url = ''http://h/d/b.jpg'', e_name = ''b.jpg'',
                  e_type = None, e_ext = Some ''jpg'', e_meta = Some ()\<rparr>,
                \<lparr>e_kind = Img, e_url = ''http://h/d/a.jpg'', e_name = ''first'',
                  e_type = None, e_ext = Some ''jpg'', e_meta = Some ()\<rparr>],
      files_of = [\<lparr>e_kind = File, e_url = ''http://h/d/doc.pdf'', e_name = ''doc.pdf'',
                    e_type = None, e_ext = Some ''pdf'', e_meta = Some ()\<rparr>]\<rparr>"

definition demo_img :: node where
  "demo_img = anchor ''a.jpg'' ''first''"

definition demo_entry :: "unit entry" where
  "demo_entry = \<lparr>e_kind = Img, e_url = ''http://h/d/a.jpg'', e_name = ''first'',
                  e_type = None, e_ext = Some ''jpg'', e_meta = Some ()\<rparr>"

text \<open>
  The outcome the specification asks of a bucket: one entry per URL, the one that came
  first in the bucket, in ascending order of the names under the comparator.
\<close>

definition deduped_sorted :: "'m host \<Rightarrow> 'm entry list \<Rightarrow> 'm entry list \<Rightarrow> bool" where
  "deduped_sorted h bucket out =
     (distinct (map e_url out)
      \<and> set (map e_url out) = set (map e_url bucket)
      \<and> list_all (\<lambda>e. find (\<lambda>x. e_url x = e_url e) bucket = Some e) out
      \<and> sorted_wrt (\<lambda>a b. nat_compare h (e_name a) (e_name b) \<le> 0) out)"

text \<open>
  What the specification says of the buckets: each anchor, taken alone, is skipped, or
  makes the exception of \<open>decodeURIComponent\<close>, or produces one entry, whose URL is the
  resolved \<open>href\<close> and whose name is the anchor's cleaned text; and a bucket holds the
  entries of its kind that the anchors produce, in the order of the anchors.
  \<open>outcomes h baseUrl i anchors\<close> lists what the anchors produce, the first of them being
  the \<open>i\<close>-th selected one, and \<open>made k\<close> keeps the entries of kind \<open>k\<close>.
\<close>

datatype 'm outcome = Skipped | Threw | Made "'m entry"

definition anchor_outcome :: "'m host \<Rightarrow> string \<Rightarrow> nat \<Rightarrow> node \<Rightarrow> 'm outcome" where
  "anchor_outcome h baseUrl i a =
     (case getAttribute a ''href'' of
        None \<Rightarrow> Skipped
      | Some href \<Rightarrow>
          if href \<in> {[], ''../'', ''./'', ''/''} \<or> \<not> isFunctionalLink h a then Skipped
          else
            case entry_name h a (abs_url h href baseUrl) of
              None \<Rightarrow> Threw
            | Some name \<Rightarrow>
                if name = [] then Skipped
                else if isDirHref href
                then Made \<lparr>e_kind = Dir, e_url = abs_url h href baseUrl, e_name = name,
                            e_type = Some (getFolderType name), e_ext = None, e_meta = None\<rparr>
                else if isImgHref href \<or> isFileHref href
                then Made \<lparr>e_kind = (if isImgHref href then Img else File),
                            e_url = abs_url h href baseUrl, e_name = name, e_type = None,
                            e_ext = Some (getExt (abs_url h href baseUrl)),
                            e_meta = Some (extractRowMeta h i a)\<rparr>
                else Skipped)"

fun outcomes :: "'m host \<Rightarrow> string \<Rightarrow> nat \<Rightarrow> node list \<Rightarrow> 'm outcome list" where
  "outcomes h baseUrl i [] = []"
| "outcomes h baseUrl i (a # rest) = anchor_outcome h baseUrl i a # outcomes h baseUrl (i + 1) rest"

fun made :: "entry_kind \<Rightarrow> 'm outcome list \<Rightarrow> 'm entry list" where
  "made k [] = []"
| "made k (Made e # os) = (if e_kind e = k then e # made k os else made k os)"
| "made k (out # os) = made k os"

text \<open>
  Pages with three functional anchors and one cue each, or none: an index-style title, a
  parent-directory anchor (without \<open>href\<close>), a listing in the only preformatted block, a
  table whose first cell names a column, a preformatted block and a table without a
  listing, and a table whose second cell only names a column. Then a page with an
  index-style title and two anchors, a page whose listing is in the second preformatted
  block, and a page whose date, time, size and name are on four lines.
\<close>

definition three_links :: "node list" where
  "three_links = [anchor ''a.zip'' ''a.zip'', anchor ''b.zip'' ''b.zip'', anchor ''c.zip'' ''c.zip'']"

definition page :: "string \<Rightarrow> node list \<Rightarrow> document" where
  "page title body = \<lparr>doc_title = title, doc_children = [Element ''html'' [] [Element ''body'' [] body]]\<rparr>"

definition plain_doc :: document where
  "plain_doc = page ''Files'' [Element ''p'' [] three_links]"

definition title_doc :: document where
  "title_doc = page ''INDEX OF /x'' [Element ''p'' [] three_links]"

definition parent_doc :: document where
  "parent_doc = page ''Files'' [Element ''a'' [] [Text ''Parent Directory''], Element ''p'' [] three_links]"

definition pre_only_doc :: document where
  "pre_only_doc = page ''Files'' [Element ''pre'' [] (three_links @ [Text '' 02-Jan-2024 10:30 1.5k a.zip''])]"

definition table_doc :: document where
  "table_doc = page ''Files''
     [Element ''table'' [] [Element ''tr'' [] [Element ''td'' [] [Text '' Last Modified ''],
                                               Element ''td'' [] [Text ''x'']]],
      Element ''p'' [] three_links]"

definition both_doc :: document where
  "both_doc = page ''Files''
     [Element ''pre'' [] [Text ''readme''],
      Element ''table'' [] [Element ''tr'' [] [Element ''td'' [] [Text ''x'']]],
      Element ''p'' [] three_links]"

definition grid_doc :: document where
  "grid_doc = page ''Files''
     [Element ''table'' [] [Element ''tr'' [] [Element ''td'' [] [Text ''x''],
                                               Element ''td'' [] [Text ''Size'']]],
      Element ''p'' [] three_links]"

definition short_doc :: document where
  "short_doc = page ''Index of /x'' [Element ''p'' [] (take 2 three_links)]"

definition two_pre_doc :: document where
  "two_pre_doc = page ''Files''
     [Element ''pre'' [] [Text ''readme''],
      Element ''pre'' [] (three_links @ [Text '' 2024-01-02 10:30 1K a.zip''])]"

definition multiline_doc :: document where
  "multiline_doc = page ''Files''
     [Element ''pre'' []
        (three_links @ [Text '' 2024-01-02'', Text [CHR 0x0A], Text ''10:30'', Text [CHR 0x0A],
                        Text ''1K'', Text [CHR 0x0A], Text ''a.zip''])]"

text \<open>
  The five cues of a document, in the order of the decision: title, parent anchor,
  content pattern of the first preformatted block, content pattern of a table, and both a
  preformatted block and a table.
\<close>

definition cues :: "document \<Rightarrow> bool \<times> bool \<times> bool \<times> bool \<times> bool" where
  "cues d = (index_title d, parent_anchor d, pre_cue d, table_cue d, pre_block d \<and> table_block d)"


section \<open>Theorems\<close>

subsection \<open>Strings\<close>

lemma lower_char_idem: "lower_char (lower_char c) = lower_char c"
proof -
  have lt: "of_char c < (256 :: nat)" by simp
  show ?thesis
    using lt unfolding lower_char_def Let_def
    by (auto simp add: of_char_of)
qed

lemma toLowerCase_idem: "toLowerCase (toLowerCase s) = toLowerCase s"
  by (simp add: toLowerCase_def lower_char_idem)


subsection \<open>Folder classifier\<close>

lemma first_match_table:
  "first_match category_table s =
     (if list_ex (includes_js s) [''video'', ''movie'', ''film'', ''tv'', ''show'', ''series''] then Video
      else if list_ex (includes_js s) [''audio'', ''sound'', ''music'', ''mp3'', ''wav'', ''flac''] then Audio
      else if list_ex (includes_js s) [''photo'', ''image'', ''picture'', ''img'', ''jpg'', ''camera'', ''raw'']
        then Photo
      else if list_ex (includes_js s) [''archive'', ''backup'', ''old'', ''save''] then Archive
      else if list_ex (includes_js s) [''document'', ''doc'', ''pdf'', ''txt'', ''report''] then Document
      else Default)"
  unfolding category_table_def by (simp only: first_match.simps)

lemma getFolderType_refines:
  "getFolderType name = first_match category_table (toLowerCase name)"
  unfolding first_match_table getFolderType_def Let_def test_ci_def toLowerCase_idem ..

text \<open>
  Claim C4, as stated, names four examples; the third one fails: the name \<open>Notes\<close>
  contains none of the terms of any category (in particular none of \<open>document\<close>,
  \<open>doc\<close>, \<open>pdf\<close>, \<open>txt\<close>, \<open>report\<close>), so \<open>getFolderType\<close> returns the default
  category and not the document category.
\<close>

theorem getFolderType_Notes_counterexample:
  "getFolderType ''Notes'' = Default \<and> getFolderType ''Notes'' \<noteq> Document"
  by code_simp

text \<open>
  Claim C4, amended: the folder classifier maps a directory name to the first category,
  in the fixed order video, audio, photo, archive, document, one of whose terms occurs in
  the lower-cased name, and to default when none does; \<open>Summer Vacation Photos\<close> is
  classified as photo, \<open>Backup_2023\<close> as archive, and both \<open>Notes\<close> and
  \<open>Assorted Stuff\<close> as default.
\<close>

theorem getFolderType_first_match:
  "getFolderType name = first_match category_table (toLowerCase name)
   \<and> getFolderType ''Summer Vacation Photos'' = Photo
   \<and> getFolderType ''Backup_2023'' = Archive
   \<and> getFolderType ''Notes'' = Default
   \<and> getFolderType ''Assorted Stuff'' = Default"
proof -
  have "getFolderType ''Summer Vacation Photos'' = Photo" by code_simp
  moreover have "getFolderType ''Backup_2023'' = Archive" by code_simp
  moreover have "getFolderType ''Notes'' = Default" by code_simp
  moreover have "getFolderType ''Assorted Stuff'' = Default" by code_simp
  ultimately show ?thesis using getFolderType_refines by blast
qed

theorem getFolderType_first_match_witness:
  "getFolderType ''TV Show Soundtracks'' = Video"
proof -
  have "getFolderType ''TV Show Soundtracks''
          = first_match category_table (toLowerCase ''TV Show Soundtracks'')"
    using getFolderType_first_match [of "''TV Show Soundtracks''"] by blast
  also have "\<dots> = Video" by code_simp
  finally show ?thesis .
qed


subsection \<open>Shuffle\<close>

lemma random_index:
  assumes "0 \<le> r" "r < 1"
  shows "nat \<lfloor>r * real (Suc (Suc n))\<rfloor> \<le> Suc n"
proof -
  have "r * real (Suc (Suc n)) < real (Suc (Suc n))"
    using assms by (simp add: mult_less_cancel_right1)
  then have "\<lfloor>r * real (Suc (Suc n))\<rfloor> < int (Suc (Suc n))"
    by (simp add: floor_less_iff)
  then show ?thesis by linarith
qed

lemma mset_swap_js: "i < length a \<Longrightarrow> j < length a \<Longrightarrow> mset (swap i j a) = mset a"
  unfolding swap_def by (simp add: mset_swap)

lemma length_swap: "length (swap i j a) = length a"
  by (simp add: swap_def)

lemma shuffle_loop_frame:
  assumes "\<forall>k. 0 \<le> rnd k \<and> rnd k < 1" "a < length hp" "n < length (hp ! a) \<or> n = 0"
  shows "length (shuffle_loop rnd k n a hp) = length hp
       \<and> (\<forall>b. b \<noteq> a \<longrightarrow> shuffle_loop rnd k n a hp ! b = hp ! b)
       \<and> mset (shuffle_loop rnd k n a hp ! a) = mset (hp ! a)"
  using assms
proof (induction n arbitrary: k hp)
  case 0
  then show ?case by simp
next
  case (Suc n)
  let ?j = "nat \<lfloor>rnd k * real (Suc n + 1)\<rfloor>"
  let ?hp = "hp[a := swap (Suc n) ?j (hp ! a)]"
  have j: "?j \<le> Suc n"
    using random_index [of "rnd k" n] Suc.prems(1) by simp
  have i: "Suc n < length (hp ! a)" using Suc.prems(3) by simp
  have len: "length (?hp ! a) = length (hp ! a)"
    using Suc.prems(2) by (simp add: length_swap)
  have ms: "mset (?hp ! a) = mset (hp ! a)"
    using Suc.prems(2) i j by (simp add: mset_swap_js)
  have ih: "length (shuffle_loop rnd (k + 1) n a ?hp) = length ?hp
       \<and> (\<forall>b. b \<noteq> a \<longrightarrow> shuffle_loop rnd (k + 1) n a ?hp ! b = ?hp ! b)
       \<and> mset (shuffle_loop rnd (k + 1) n a ?hp ! a) = mset (?hp ! a)"
    by (rule Suc.IH) (use Suc.prems i len in auto)
  show ?case
    using ih ms by (simp add: Let_def)
qed

text \<open>
  Claim C10: for every input array, \<open>shuffle\<close> returns a fresh array (a new object of
  the store, at an address that was not in use) whose elements are a permutation of the
  input's elements (same multiset, same length), and every array that existed before the
  call, the input among them, is left unmodified. \<open>Math.random\<close> returns values in
  \<open>[0, 1)\<close>.
\<close>

theorem shuffle_permutes_copy:
  assumes rnd: "\<forall>k. 0 \<le> rnd k \<and> rnd k < 1" and arr: "array < length hp"
  shows "\<exists>hp'. shuffle rnd array hp = Some (length hp, hp')
           \<and> length hp' = Suc (length hp)
           \<and> (\<forall>b < length hp. hp' ! b = hp ! b)
           \<and> mset (hp' ! length hp) = mset (hp ! array)
           \<and> length (hp' ! length hp) = length (hp ! array)"
proof -
  let ?hp1 = "hp @ [hp ! array]"
  let ?n = "length (?hp1 ! length hp) - 1"
  let ?hp' = "shuffle_loop rnd 0 ?n (length hp) ?hp1"
  have sh: "shuffle rnd array hp = Some (length hp, ?hp')"
    using arr by (simp add: shuffle_def slice_def)
  have fr: "length ?hp' = length ?hp1
       \<and> (\<forall>b. b \<noteq> length hp \<longrightarrow> ?hp' ! b = ?hp1 ! b)
       \<and> mset (?hp' ! length hp) = mset (?hp1 ! length hp)"
    by (rule shuffle_loop_frame) (use rnd in \<open>auto simp: nth_append\<close>)
  have old: "\<forall>b < length hp. ?hp' ! b = hp ! b"
    using fr by (simp add: nth_append)
  have ms: "mset (?hp' ! length hp) = mset (hp ! array)"
    using fr by simp
  have "length (?hp' ! length hp) = length (hp ! array)"
    using ms by (metis size_mset)
  then show ?thesis using sh fr old ms by simp
qed

theorem shuffle_permutes_copy_witness:
  "shuffle (\<lambda>k. 1/2) 0 [[1::nat, 2, 3, 4]] = Some (1, [[1, 2, 3, 4], [1, 4, 2, 3]])
   \<and> mset [1::nat, 4, 2, 3] = mset [1, 2, 3, 4]"
proof -
  have ev: "shuffle (\<lambda>k. 1/2) 0 [[1::nat, 2, 3, 4]] = Some (1, [[1, 2, 3, 4], [1, 4, 2, 3]])"
    by (simp add: shuffle_def slice_def swap_def numeral_nat)
  have "\<forall>k::nat. (0::real) \<le> 1/2 \<and> (1/2::real) < 1" by simp
  then obtain hp' where
    "shuffle (\<lambda>k. 1/2) 0 [[1::nat, 2, 3, 4]] = Some (length [[1::nat, 2, 3, 4]], hp')"
    "mset (hp' ! length [[1::nat, 2, 3, 4]]) = mset ([[1::nat, 2, 3, 4]] ! 0)"
    using shuffle_permutes_copy [of "\<lambda>k. 1/2" 0 "[[1::nat, 2, 3, 4]]"] by auto
  then show ?thesis using ev by simp
qed


subsection \<open>Build pipeline\<close>

lemma read_all_agree:
  "\<forall>f \<in> set fl. fs2 f = fs f \<Longrightarrow> read_all fs2 fl = read_all fs fl"
  by (induction fl) (simp_all split: option.split)

lemma artifact_not_fragment: "artifact \<notin> set files"
  by (simp add: artifact_def files_def)

text \<open>
  Claim C9: when the seven fragments can be read and the artifact written, the build's
  output is the fragments' texts in the declared order (header, config, utils, dom, ui,
  main, footer) joined with a newline between them; the output depends on the fragments'
  contents only, so every run against the same fragment contents, a second run after the
  first included, writes the same text.
\<close>

theorem build_output_deterministic:
  assumes "fs ''src/header.js'' = Some t_header" "fs ''src/config.js'' = Some t_config"
    "fs ''src/utils.js'' = Some t_utils" "fs ''src/dom.js'' = Some t_dom"
    "fs ''src/ui.js'' = Some t_ui" "fs ''src/main.js'' = Some t_main"
    "fs ''src/footer.js'' = Some t_footer"
    and out: "out = t_header @ newline @ t_config @ newline @ t_utils @ newline @ t_dom @ newline
                    @ t_ui @ newline @ t_main @ newline @ t_footer"
  shows "build True fs = Inr (fs(artifact \<mapsto> out))
       \<and> (\<forall>fs2. (\<forall>f \<in> set files. fs2 f = fs f) \<longrightarrow> build True fs2 = Inr (fs2(artifact \<mapsto> out)))
       \<and> build True (fs(artifact \<mapsto> out)) = Inr (fs(artifact \<mapsto> out))"
proof -
  have r: "read_all fs files = Inr [t_header, t_config, t_utils, t_dom, t_ui, t_main, t_footer]"
    using assms(1-7) by (simp add: files_def)
  have b: "build True fs = Inr (fs(artifact \<mapsto> out))"
    by (simp add: build_def r out)
  have d: "build True fs2 = Inr (fs2(artifact \<mapsto> out))" if "\<forall>f \<in> set files. fs2 f = fs f" for fs2
    using read_all_agree [OF that] by (simp add: build_def r out)
  have "\<forall>f \<in> set files. (fs(artifact \<mapsto> out)) f = fs f"
    using artifact_not_fragment by auto
  then have "build True (fs(artifact \<mapsto> out)) = Inr ((fs(artifact \<mapsto> out))(artifact \<mapsto> out))"
    by (rule d)
  then show ?thesis using b d by simp
qed

theorem build_output_deterministic_witness:
  "build True demo_fs = Inr (demo_fs(artifact \<mapsto> ''H'' @ newline @ ''C'' @ newline @ ''U'' @ newline @ ''D'' @ newline @ ''I'' @ newline @ ''M'' @ newline @ ''F''))
   \<and> build True (demo_fs(''README.md'' \<mapsto> ''changed''))
       = Inr (demo_fs(''README.md'' \<mapsto> ''changed'',
                      artifact \<mapsto> ''H'' @ newline @ ''C'' @ newline @ ''U'' @ newline @ ''D'' @ newline @ ''I'' @ newline @ ''M'' @ newline @ ''F''))"
proof -
  note b = build_output_deterministic [of demo_fs "''H''" "''C''" "''U''" "''D''" "''I''" "''M''" "''F''",
      OF _ _ _ _ _ _ _ refl]
  have same: "\<forall>f \<in> set files. (demo_fs(''README.md'' \<mapsto> ''changed'')) f = demo_fs f"
    by (simp add: files_def)
  have 1: "build True demo_fs = Inr (demo_fs(artifact \<mapsto> ''H'' @ newline @ ''C'' @ newline @ ''U'' @ newline @ ''D'' @ newline @ ''I'' @ newline @ ''M'' @ newline @ ''F''))"
    using b by (simp add: demo_fs_def)
  have "\<forall>fs2. (\<forall>f \<in> set files. fs2 f = demo_fs f) \<longrightarrow>
          build True fs2 = Inr (fs2(artifact \<mapsto> ''H'' @ newline @ ''C'' @ newline @ ''U'' @ newline @ ''D'' @ newline @ ''I'' @ newline @ ''M'' @ newline @ ''F''))"
    using b by (simp add: demo_fs_def)
  then have 2: "build True (demo_fs(''README.md'' \<mapsto> ''changed''))
       = Inr (demo_fs(''README.md'' \<mapsto> ''changed'',
                      artifact \<mapsto> ''H'' @ newline @ ''C'' @ newline @ ''U'' @ newline @ ''D'' @ newline @ ''I'' @ newline @ ''M'' @ newline @ ''F''))"
    using same by blast
  show ?thesis using 1 2 by (rule conjI)
qed


subsection \<open>Preference store\<close>

text \<open>
  Claim C8: for every key and string value, a \<open>set(key, value)\<close> that returns followed
  by \<open>get(key, default)\<close> yields the stored value, and \<open>get\<close> of a key with no stored
  value yields the supplied default, with either backing store; \<open>set\<close> returns whenever
  the host accepts the write (the script manager's store always does).
\<close>

theorem pref_roundtrip:
  "(setPref b accepted key v s = Inr s' \<longrightarrow> getPref b key def s' = JString v)
   \<and> (s key = None \<longrightarrow> getPref b key def s = def)
   \<and> setPref GM accepted key v s = Inr (s(key \<mapsto> v))
   \<and> setPref LocalStorage True key v s = Inr (s(key \<mapsto> v))"
  by (cases b) (auto simp: setPref_def storage_set_def getPref_def storage_get_def Let_def split: if_splits)

theorem pref_roundtrip_witness:
  "getPref LocalStorage ''ntb:view'' (JString ''grid'') (Map.empty(''ntb:view'' \<mapsto> ''list'')) = JString ''list''
   \<and> getPref GM ''ntb:view'' (JString ''grid'') (Map.empty(''ntb:view'' \<mapsto> ''list'')) = JString ''list''
   \<and> getPref LocalStorage ''ntb:view'' (JString ''grid'') Map.empty = JString ''grid''
   \<and> getPref GM ''ntb:view'' (JString ''grid'') Map.empty = JString ''grid''"
proof -
  have a: "setPref LocalStorage True ''ntb:view'' ''list'' Map.empty = Inr (Map.empty(''ntb:view'' \<mapsto> ''list''))"
    by (simp add: setPref_def storage_set_def)
  have b: "setPref GM True ''ntb:view'' ''list'' Map.empty = Inr (Map.empty(''ntb:view'' \<mapsto> ''list''))"
    by (simp add: setPref_def storage_set_def)
  have n: "(Map.empty :: prefs) ''ntb:view'' = None" by simp
  show ?thesis
    using pref_roundtrip [of LocalStorage True "''ntb:view''" "''list''" Map.empty "Map.empty(''ntb:view'' \<mapsto> ''list'')" "JString ''grid''"]
      pref_roundtrip [of GM True "''ntb:view''" "''list''" Map.empty "Map.empty(''ntb:view'' \<mapsto> ''list'')" "JString ''grid''"]
      a b n
    by blast
qed


subsection \<open>Lightbox\<close>




lemma jdiv_NaN: "jdiv a NaN = NaN"
  by (cases a) simp_all

lemma jadd_NaN: "jadd a NaN = NaN"
  by (cases a) simp_all











lemma reset_recentres:
  "st_z (st (handle g (Click ''reset'') lb)) = Fin 1
   \<and> st_x (st (handle g (Click ''reset'') lb)) = Fin 0
   \<and> st_y (st (handle g (Click ''reset'') lb)) = Fin 0
   \<and> st_z (st (handle g Key0 lb)) = Fin 1
   \<and> st_x (st (handle g Key0 lb)) = Fin 0
   \<and> st_y (st (handle g Key0 lb)) = Fin 0"
  by (simp add: click_def Let_def recenter_def)








lemma jmax_zero: "a \<noteq> NaN \<Longrightarrow> jle (Fin 0) (jmax (Fin 0) a)"
  by (cases a) simp_all









subsection \<open>Metadata cache\<close>




lemma prune_under: "length c \<le> CACHE_MAX_SIZE \<Longrightarrow> prune c = c"
  by (simp add: prune_def)












subsection \<open>Autoindex detector\<close>

lemma startsWith_prefix: "startsWith s p \<longleftrightarrow> prefix p s"
  by (induction s p rule: startsWith.induct) auto

lemma includes_sublist: "includes_js s p \<longleftrightarrow> sublist p s"
  by (induction s) (simp_all add: startsWith_prefix sublist_Cons_right)

lemma test_ci_contains: "test_ci ws s \<longleftrightarrow> (\<exists>w \<in> set ws. contains_ci w s)"
  by (simp add: test_ci_def contains_ci_def toLowerCase_def includes_sublist list_ex_iff)

lemma contains_ci_lower: "contains_ci w (toLowerCase s) = contains_ci w s"
  by (simp add: contains_ci_def toLowerCase_def lower_char_idem comp_def)

text \<open>The title cue.\<close>

lemma hasIndexTitle_spec: "hasIndexTitle d = index_title d"
  by (simp add: hasIndexTitle_def index_title_def Let_def startsWith_prefix test_ci_contains
      contains_ci_lower)
    (simp add: contains_ci_def includes_sublist toLowerCase_def)

text \<open>
  The selectors list the elements of the document: \<open>all_elements\<close> holds every element
  once per occurrence, and \<open>querySelector\<close> returns the first element of the walk.
\<close>

lemma mset_elements: "mset (elements n) = elems n"
  by (induction n) (simp_all add: mset_concat comp_def cong: map_cong)

lemma mset_all_elements: "mset (all_elements d) = doc_elems d"
  by (simp add: all_elements_def doc_elems_def mset_concat comp_def mset_elements)

lemma set_all_elements: "set (all_elements d) = set_mset (doc_elems d)"
  using mset_all_elements [of d] by (metis set_mset_mset)

lemma first_elem_elements:
  "first_elem P ns = (case filter P (concat (map elements ns)) of [] \<Rightarrow> None | n # r \<Rightarrow> Some n)"
  by (induction P ns rule: first_elem.induct) (auto split: list.splits option.splits)

lemma qs_tag_first: "qs_tag t d = first_elem (is_tag t) (doc_children d)"
  by (simp add: qs_tag_def qsa_tag_def all_elements_def first_elem_elements)

lemma qs_tag_exists: "qs_tag t d \<noteq> None \<longleftrightarrow> (\<exists>n \<in># doc_elems d. is_tag t n)"
proof -
  have "qs_tag t d \<noteq> None \<longleftrightarrow> filter (is_tag t) (all_elements d) \<noteq> []"
    by (simp add: qs_tag_def qsa_tag_def split: list.splits)
  also have "\<dots> \<longleftrightarrow> (\<exists>n \<in> set (all_elements d). is_tag t n)"
    by (simp add: filter_empty_conv)
  finally show ?thesis by (simp add: set_all_elements)
qed

lemma hasPre_spec: "hasPre d = pre_block d"
  unfolding hasPre_def pre_block_def by (rule qs_tag_exists)

lemma hasTable_spec: "hasTable d = table_block d"
  unfolding hasTable_def table_block_def by (rule qs_tag_exists)

lemma hasParentLink_spec: "hasParentLink d = parent_anchor d"
  by (auto simp: hasParentLink_def parent_anchor_def qsa_tag_def list_ex_iff set_all_elements
      test_ci_contains)

text \<open>The functional anchors are counted once per occurrence.\<close>

lemma functional_anchor_iff:
  "functional_anchor h n \<longleftrightarrow> is_a_href n \<and> isFunctionalLink h n"
  by (auto simp: functional_anchor_def is_a_href_def isFunctionalLink_def a_href_def
      startsWith_prefix split: option.splits)

lemma fileish_count: "length (fileish h d) = functional_count h d"
proof -
  have "fileish h d = filter (functional_anchor h) (all_elements d)"
    by (simp add: fileish_def qsa_a_href_def functional_anchor_iff conj_commute cong: filter_cong)
  then have "length (fileish h d) = size (mset (filter (functional_anchor h) (all_elements d)))"
    by (simp only: size_mset)
  also have "\<dots> = functional_count h d"
    by (simp only: mset_filter mset_all_elements functional_count_def)
  finally show ?thesis .
qed

text \<open>
  The cells \<open>th, td:first-child\<close>: \<open>sibling_cells first ns\<close> walks the siblings \<open>ns\<close>,
  \<open>first\<close> saying that no element came before them.
\<close>

lemma find_is_element_Text: "find is_element (Text s # ns) = find is_element ns"
  by simp

lemma cells_sets:
  "set (cells first n) =
     {m. m \<in># elems n \<and> is_tag ''th'' m}
     \<union> {m. is_tag ''td'' m \<and> ((first \<and> is_element n \<and> m = n)
            \<or> (\<exists>e \<in># elems n. find is_element (children_of e) = Some m))}"
  "set (sibling_cells first ns) =
     {m. m \<in># sum_list (map elems ns) \<and> is_tag ''th'' m}
     \<union> {m. is_tag ''td'' m \<and> ((first \<and> find is_element ns = Some m)
            \<or> (\<exists>e \<in># sum_list (map elems ns). find is_element (children_of e) = Some m))}"
proof (induction first n and first ns rule: cells_sibling_cells.induct)
  case (1 first s)
  show ?case by simp
next
  case (2 first t as cs)
  show ?case
    unfolding cells.simps set_append "2.IH"
    by (auto split: if_splits)
next
  case (3 first)
  show ?case by simp
next
  case (4 first s ns)
  show ?case
    unfolding sibling_cells.simps "4.IH" by simp
next
  case (5 first t as cs ns)
  show ?case
    unfolding sibling_cells.simps set_append "5.IH"
    by (auto split: if_splits)
qed

text \<open>
  The regular-expression engine against the strings a pattern matches: \<open>rems r s\<close>
  holds the remainders of \<open>s\<close> after the matches of \<open>r\<close> at its start, and
  \<open>regex_test r s\<close> says that \<open>s\<close> contains a match.
\<close>

lemma set_plus_rems: "set (plus_rems k s) = {v. \<exists>m \<in> chars1 (in_class k). s = m @ v}"
proof (induction s)
  case Nil
  then show ?case by (simp add: chars1_def)
next
  case (Cons c cs)
  show ?case
  proof (cases "in_class k c")
    case True
    have "{v. \<exists>m \<in> chars1 (in_class k). c # cs = m @ v}
        = insert cs {v. \<exists>m \<in> chars1 (in_class k). cs = m @ v}" (is "?L = ?R")
    proof (intro set_eqI iffI)
      fix v assume "v \<in> ?L"
      then obtain m where m: "m \<noteq> []" "\<forall>x \<in> set m. in_class k x" "c # cs = m @ v"
        by (auto simp: chars1_def)
      then obtain m' where m': "m = c # m'" "cs = m' @ v"
        by (cases m) auto
      show "v \<in> ?R"
      proof (cases "m' = []")
        case True
        then show ?thesis using m' by simp
      next
        case False
        then have "m' \<in> chars1 (in_class k)" using m(2) m'(1) by (simp add: chars1_def)
        then show ?thesis using m'(2) by blast
      qed
    next
      fix v assume "v \<in> ?R"
      then consider "v = cs" | m where "m \<in> chars1 (in_class k)" "cs = m @ v"
        by blast
      then show "v \<in> ?L"
      proof cases
        case 1
        have "[c] \<in> chars1 (in_class k)" using True by (simp add: chars1_def)
        moreover have "c # cs = [c] @ v" using 1 by simp
        ultimately show ?thesis by blast
      next
        case 2
        have "c # m \<in> chars1 (in_class k)" using True 2(1) by (simp add: chars1_def)
        moreover have "c # cs = (c # m) @ v" using 2(2) by simp
        ultimately show ?thesis by blast
      qed
    qed
    then show ?thesis using True Cons.IH by simp
  next
    case False
    have "{v. \<exists>m \<in> chars1 (in_class k). c # cs = m @ v} = {}"
    proof -
      have "False" if "m \<in> chars1 (in_class k)" "c # cs = m @ v" for m v
        using that False by (cases m) (auto simp: chars1_def)
      then show ?thesis by blast
    qed
    then show ?thesis using False by simp
  qed
qed

lemma set_times_rems: "set (times_rems n k s) = {v. \<exists>m \<in> chars (in_class k) n. s = m @ v}"
proof (induction s arbitrary: n)
  case Nil
  then show ?case by (auto simp: chars_def)
next
  case (Cons c cs)
  show ?case
  proof (cases n)
    case 0
    then show ?thesis by (auto simp: chars_def)
  next
    case (Suc j)
    show ?thesis
    proof (cases "in_class k c")
      case True
      have "{v. \<exists>m \<in> chars (in_class k) (Suc j). c # cs = m @ v}
          = {v. \<exists>m \<in> chars (in_class k) j. cs = m @ v}" (is "?L = ?R")
      proof (intro set_eqI iffI)
        fix v assume "v \<in> ?L"
        then obtain m where m: "length m = Suc j" "\<forall>x \<in> set m. in_class k x" "c # cs = m @ v"
          by (auto simp: chars_def)
        then obtain m' where m': "m = c # m'" "cs = m' @ v"
          by (cases m) auto
        then have "m' \<in> chars (in_class k) j" using m(1,2) by (simp add: chars_def)
        then show "v \<in> ?R" using m'(2) by blast
      next
        fix v assume "v \<in> ?R"
        then obtain m where m: "m \<in> chars (in_class k) j" "cs = m @ v" by blast
        have "c # m \<in> chars (in_class k) (Suc j)" using True m(1) by (simp add: chars_def)
        moreover have "c # cs = (c # m) @ v" using m(2) by simp
        ultimately show "v \<in> ?L" by blast
      qed
      then show ?thesis using True Suc Cons.IH [of j] by simp
    next
      case False
      have "{v. \<exists>m \<in> chars (in_class k) (Suc j). c # cs = m @ v} = {}"
      proof -
        have "False" if "m \<in> chars (in_class k) (Suc j)" "c # cs = m @ v" for m v
          using that False by (cases m) (auto simp: chars_def)
        then show ?thesis by blast
      qed
      then show ?thesis using False Suc by simp
    qed
  qed
qed

lemma chars_one: "chars P (Suc 0) = {[c] | c. P c}"
proof -
  have "length s = Suc 0 \<longleftrightarrow> (\<exists>c. s = [c])" for s :: string
    by (cases s) auto
  then show ?thesis by (auto simp: chars_def)
qed

lemma set_rems: "set (rems r s) = {v. \<exists>m \<in> lang r. s = m @ v}"
proof (induction r arbitrary: s)
  case Eps
  show ?case by simp
next
  case (Cls k)
  show ?case by (cases s) (auto simp: chars_one)
next
  case (Seq a b)
  have "set (rems (Seq a b) s) = (\<Union>v \<in> set (rems a s). set (rems b v))"
    by simp
  also have "\<dots> = {w. \<exists>v x y. x \<in> lang a \<and> s = x @ v \<and> y \<in> lang b \<and> v = y @ w}"
    unfolding Seq.IH by blast
  also have "\<dots> = {w. \<exists>m \<in> lang (Seq a b). s = m @ w}"
    by (auto simp: conc_def) (metis append.assoc)+
  finally show ?case .
next
  case (Opt a)
  show ?case by (auto simp: Opt.IH optional_def)
next
  case (Plus k)
  show ?case by (simp add: set_plus_rems)
next
  case (Times n k)
  show ?case by (simp add: set_times_rems)
qed

lemma regex_test_lang: "regex_test r s \<longleftrightarrow> (\<exists>u m v. s = u @ m @ v \<and> m \<in> lang r)"
proof (induction s)
  case Nil
  have "rems r [] \<noteq> [] \<longleftrightarrow> set (rems r []) \<noteq> {}" by simp
  then show ?case unfolding regex_test.simps set_rems by auto
next
  case (Cons c cs)
  have here: "rems r (c # cs) \<noteq> [] \<longleftrightarrow> (\<exists>m v. c # cs = m @ v \<and> m \<in> lang r)"
  proof -
    have "rems r (c # cs) \<noteq> [] \<longleftrightarrow> set (rems r (c # cs)) \<noteq> {}" by simp
    then show ?thesis unfolding set_rems by auto
  qed
  have "(\<exists>u m v. c # cs = u @ m @ v \<and> m \<in> lang r)
      \<longleftrightarrow> (\<exists>m v. c # cs = m @ v \<and> m \<in> lang r) \<or> (\<exists>u m v. cs = u @ m @ v \<and> m \<in> lang r)"
    (is "?L \<longleftrightarrow> ?A \<or> ?B")
  proof
    assume ?L
    then obtain u m v where x: "c # cs = u @ m @ v" "m \<in> lang r" by blast
    show "?A \<or> ?B"
    proof (cases u)
      case Nil
      then show ?thesis using x by auto
    next
      case (Cons a u')
      then have "cs = u' @ m @ v" using x(1) by simp
      then show ?thesis using x(2) by blast
    qed
  next
    assume "?A \<or> ?B"
    then show ?L
    proof
      assume ?A
      then obtain m v where "c # cs = [] @ m @ v" "m \<in> lang r" by auto
      then show ?L by blast
    next
      assume ?B
      then obtain u m v where "c # cs = (c # u) @ m @ v" "m \<in> lang r" by auto
      then show ?L by blast
    qed
  qed
  then show ?case unfolding regex_test.simps here Cons.IH by simp
qed

text \<open>The two patterns of the detector match the listing tokens.\<close>

lemma conc_assoc: "conc (conc A B) C = conc A (conc B C)"
  by (auto simp: conc_def) (metis append.assoc)+

lemma conc_unit: "conc A {[]} = A" "conc {[]} A = A"
  by (auto simp: conc_def)

lemma conc_Un: "conc (A \<union> B) C = conc A C \<union> conc B C"
  by (auto simp: conc_def)

lemma concs_Cons: "concs (A # As) = conc A (concs As)" "concs [] = {[]}"
  by (simp_all add: concs_def)

lemma lang_seqs: "lang (seqs rs) = concs (map lang rs)"
  by (induction rs) (simp_all add: seqs_def concs_def)

lemma class_chars:
  "in_class Digit = is_digit" "in_class Letter = is_letter" "in_class Space = is_space"
  "in_class NonSpace = (\<lambda>c. \<not> is_space c)"
  "in_class (OneOfCI ''kmg'') = (\<lambda>c. c \<in> set ''kmgKMG'')"
proof -
  have "\<forall>c. in_class Digit c = is_digit c" by code_simp
  then show "in_class Digit = is_digit" by (simp add: fun_eq_iff)
  have "\<forall>c. in_class Letter c = is_letter c" by code_simp
  then show "in_class Letter = is_letter" by (simp add: fun_eq_iff)
  have "\<forall>c. in_class (OneOfCI ''kmg'') c = (c \<in> set ''kmgKMG'')" by code_simp
  then show "in_class (OneOfCI ''kmg'') = (\<lambda>c. c \<in> set ''kmgKMG'')" by (simp add: fun_eq_iff)
qed (simp_all add: fun_eq_iff)

lemma lit_chars: "chars (in_class (Lit x)) (Suc 0) = {[x]}"
  by (auto simp: chars_one)

lemma lang_patterns: "lang apache_iso \<union> lang apache_mon = listing_token"
  unfolding apache_iso_def apache_mon_def time_size_name_def lang_seqs listing_token_def
    iso_date_def mon_date_def clock_time_def size_token_def file_name_def
  by (simp add: concs_Cons conc_assoc conc_unit conc_Un class_chars lit_chars)

lemma pattern_test:
  "regex_test apache_iso s \<or> regex_test apache_mon s \<longleftrightarrow> contains_listing s"
  unfolding regex_test_lang contains_listing_def lang_patterns [symmetric] by blast

lemma pre_pattern_spec: "pre_pattern d = pre_cue d"
  by (auto simp: pre_pattern_def pre_cue_def qs_tag_first Let_def pattern_test split: option.splits)

text \<open>Trimming and lower-casing a cell's text does not change whether it contains a column word.\<close>

lemma sublist_dropWhile: "w \<noteq> [] \<Longrightarrow> \<not> P (hd w) \<Longrightarrow> sublist w (dropWhile P s) = sublist w s"
proof (induction s)
  case Nil
  then show ?case by simp
next
  case (Cons c cs)
  show ?case
  proof (cases "P c")
    case True
    have "\<not> prefix w (c # cs)"
      using Cons.prems True by (cases w) auto
    then show ?thesis
      using True Cons by (simp add: sublist_Cons_right)
  next
    case False
    then show ?thesis by simp
  qed
qed

lemma sublist_trim:
  assumes "w \<noteq> []" "\<not> is_space (hd w)" "\<not> is_space (last w)"
  shows "sublist w (trim s) = sublist w s"
proof -
  have r: "rev w \<noteq> []" "\<not> is_space (hd (rev w))"
    using assms by (simp_all add: hd_rev)
  have "sublist w (trim s) = sublist (rev w) (dropWhile is_space (rev (dropWhile is_space s)))"
    unfolding trim_def by (metis sublist_rev rev_rev_ident)
  also have "\<dots> = sublist (rev w) (rev (dropWhile is_space s))"
    by (rule sublist_dropWhile [of "rev w" is_space, OF r])
  also have "\<dots> = sublist w (dropWhile is_space s)"
    by (rule sublist_rev)
  also have "\<dots> = sublist w s"
    by (rule sublist_dropWhile [of w is_space, OF assms(1,2)])
  finally show ?thesis .
qed

lemma lower_trim: "map lower_char (trim s) = trim (map lower_char s)"
proof -
  have "\<forall>c. is_space (lower_char c) = is_space c" by code_simp
  then have "is_space \<circ> lower_char = is_space"
    by (auto simp: fun_eq_iff)
  then show ?thesis
    by (simp add: trim_def rev_map dropWhile_map)
qed

lemma column_word_trim:
  assumes "w \<in> set column_words"
  shows "contains_ci w (toLowerCase (trim s)) = contains_ci w s"
proof -
  have "\<forall>w \<in> set column_words. w \<noteq> [] \<and> \<not> is_space (hd w) \<and> \<not> is_space (last w)"
    by code_simp
  then have w: "w \<noteq> []" "\<not> is_space (hd w)" "\<not> is_space (last w)"
    using assms by blast+
  show ?thesis
    unfolding contains_ci_lower unfolding contains_ci_def lower_trim
    by (rule sublist_trim [OF w])
qed

text \<open>The elements below an element of a document are elements of the document.\<close>

lemma elems_self: "is_element n \<Longrightarrow> n \<in># elems n"
  by (cases n) simp_all

lemma elems_trans: "e \<in># elems n \<Longrightarrow> m \<in># elems e \<Longrightarrow> m \<in># elems n"
proof (induction n)
  case (Text s)
  then show ?case by simp
next
  case (Element t as cs)
  show ?case
  proof (cases "e = Element t as cs")
    case True
    then show ?thesis using Element.prems(2) by simp
  next
    case False
    then obtain c where c: "c \<in> set cs" "e \<in># elems c"
      using Element.prems(1) by auto
    then have "m \<in># elems c" using Element.IH Element.prems(2) by blast
    then show ?thesis using c(1) by auto
  qed
qed

lemma first_child_elem: "first_child d m \<Longrightarrow> m \<in># doc_elems d"
proof -
  assume "first_child d m"
  then obtain cs where cs: "cs \<in> child_lists d" "find is_element cs = Some m"
    by (auto simp: first_child_def)
  then have m: "m \<in> set cs" "is_element m"
    by (auto simp: find_Some_iff)
  then have self: "m \<in># elems m" by (simp add: elems_self)
  from cs(1) consider "cs = doc_children d" | e where "e \<in># doc_elems d" "cs = children_of e"
    by (auto simp: child_lists_def)
  then show ?thesis
  proof cases
    case 1
    then show ?thesis using m(1) self by (auto simp: doc_elems_def)
  next
    case 2
    then obtain c where c: "c \<in> set (doc_children d)" "e \<in># elems c"
      by (auto simp: doc_elems_def)
    have "m \<in># elems e"
      using 2(2) m(1) self by (cases e) auto
    then have "m \<in># elems c" using c(2) elems_trans by blast
    then show ?thesis using c(1) by (auto simp: doc_elems_def)
  qed
qed

lemma set_qsa_cells:
  "set (qsa_cells d)
     = {m. m \<in># doc_elems d \<and> (is_tag ''th'' m \<or> (is_tag ''td'' m \<and> first_child d m))}"
proof -
  have "set (qsa_cells d)
      = {m. m \<in># doc_elems d \<and> is_tag ''th'' m} \<union> {m. is_tag ''td'' m \<and> first_child d m}"
    unfolding qsa_cells_def cells_sets(2) doc_elems_def [symmetric]
    by (auto simp: first_child_def child_lists_def)
  then show ?thesis using first_child_elem by blast
qed

lemma table_pattern_spec: "hasTable d \<and> table_pattern d \<longleftrightarrow> table_cue d"
proof -
  have "table_pattern d \<longleftrightarrow>
      (\<exists>n \<in> set (qsa_cells d). \<exists>w \<in> set column_words. contains_ci w (toLowerCase (trim (textContent n))))"
    by (simp add: table_pattern_def Let_def list_ex_iff test_ci_contains column_words_def)
  also have "\<dots> \<longleftrightarrow> (\<exists>n \<in> set (qsa_cells d). \<exists>w \<in> set column_words. contains_ci w (textContent n))"
    using column_word_trim by blast
  finally show ?thesis
    unfolding table_cue_def hasTable_spec set_qsa_cells by blast
qed

lemma pre_cue_block: "pre_cue d \<Longrightarrow> pre_block d"
  unfolding pre_cue_def pre_block_def qs_tag_first [symmetric]
  using qs_tag_exists [of "''pre''" d] by auto

text \<open>
  Claim C1, as stated, asks of both detectors that they accept exactly the pages with at
  least three functional anchors and an index-style title, or a parent-directory anchor,
  or a directory content pattern (a line of a preformatted block with a date token, a
  size token and a file name, or a table header or first cell naming a column), or both a
  preformatted block and a table. Three pages show that it fails. A page whose listing
  line is in its second preformatted block satisfies the stated condition, and the
  userscript's detector, which looks at the first block only, rejects it. A page whose
  date, time, size and file name are on four lines of its preformatted block satisfies no
  stated cue, and the userscript's detector accepts it, because the white space of its
  pattern includes line breaks. A page whose only cue is a listing line satisfies the
  stated condition, and the detector of \<open>src/dom.js\<close>, which has no content-pattern
  check, rejects it.
\<close>

lemma pre_line_cue_test:
  "pre_line_cue d =
     list_ex (\<lambda>n. is_tag ''pre'' n
                \<and> list_ex (\<lambda>l. regex_test apache_iso l \<or> regex_test apache_mon l)
                     (lines_of (textContent n))) (all_elements d)"
  by (simp add: pre_line_cue_def list_ex_iff set_all_elements pattern_test)

theorem looksLikeAutoIndex_claim_counterexample:
  "claimed_detector demo_host two_pre_doc \<and> \<not> looksLikeAutoIndex demo_host two_pre_doc
   \<and> \<not> claimed_detector demo_host multiline_doc \<and> looksLikeAutoIndex demo_host multiline_doc
   \<and> claimed_detector demo_host pre_only_doc \<and> \<not> looksLikeAutoIndex_dom demo_host pre_only_doc"
proof -
  have n: "functional_count demo_host two_pre_doc = 3" "functional_count demo_host pre_only_doc = 3"
    by code_simp+
  have "pre_line_cue two_pre_doc" "pre_line_cue pre_only_doc"
    unfolding pre_line_cue_test by code_simp+
  then have 1: "claimed_detector demo_host two_pre_doc" "claimed_detector demo_host pre_only_doc"
    by (simp_all add: claimed_detector_def n)
  have "\<not> pre_line_cue multiline_doc"
    unfolding pre_line_cue_test by code_simp
  moreover have "\<not> index_title multiline_doc" "\<not> parent_anchor multiline_doc"
    "\<not> table_cue multiline_doc" "\<not> table_block multiline_doc"
    by code_simp+
  ultimately have 2: "\<not> claimed_detector demo_host multiline_doc"
    by (simp add: claimed_detector_def)
  have 3: "\<not> looksLikeAutoIndex demo_host two_pre_doc" "looksLikeAutoIndex demo_host multiline_doc"
    "\<not> looksLikeAutoIndex_dom demo_host pre_only_doc"
    by code_simp+
  show ?thesis
    using 1 2 3 by simp
qed

text \<open>
  Claim C1, amended: for every document, the userscript's \<open>looksLikeAutoIndex\<close> returns
  true if and only if the document contains at least three functional anchors (\<open>a\<close>
  elements with an \<open>href\<close> whose resolved target is not empty and starts with neither
  \<open>mailto:\<close> nor \<open>javascript:\<close>, counted once per occurrence) and has an index-style
  title, or an \<open>a\<close> element whose text contains \<open>parent directory\<close>, or a directory
  content pattern, or both a \<open>pre\<close> element and a \<open>table\<close> element. The content
  pattern is: the text of the first \<open>pre\<close> element of the document contains a date token
  (\<open>YYYY-MM-DD\<close> or \<open>DD-Mon-YYYY\<close>), a time, a size token and a file name, separated
  by white space that may include line breaks; or the document has a table and the text of
  a \<open>th\<close> element, or of a \<open>td\<close> element that is the first element child of its
  parent, contains \<open>name\<close>, \<open>last modified\<close>, \<open>size\<close> or \<open>description\<close>. Letters
  are compared without regard to case. The detector of \<open>src/dom.js\<close> returns true if and
  only if the document contains at least three functional anchors and has an index-style
  title, or a parent-directory anchor, or both a \<open>pre\<close> element and a \<open>table\<close>
  element. A document with fewer than three functional anchors is accepted by neither.
\<close>

theorem looksLikeAutoIndex_cues:
  "looksLikeAutoIndex h d = spec_detector h d
   \<and> looksLikeAutoIndex_dom h d = spec_detector_dom h d
   \<and> (functional_count h d < 3 \<longrightarrow> \<not> looksLikeAutoIndex h d \<and> \<not> looksLikeAutoIndex_dom h d)"
proof -
  have pre: "pre_cue d \<longrightarrow> pre_block d"
    using pre_cue_block by blast
  have tab: "table_cue d \<longleftrightarrow> table_block d \<and> table_pattern d"
    using table_pattern_spec [of d] by (simp add: hasTable_spec)
  have 1: "looksLikeAutoIndex h d = spec_detector h d"
    unfolding looksLikeAutoIndex_def spec_detector_def Let_def hasIndexTitle_spec
      hasParentLink_spec hasPre_spec hasTable_spec pre_pattern_spec fileish_count tab
    using pre by auto
  have 2: "looksLikeAutoIndex_dom h d = spec_detector_dom h d"
    unfolding looksLikeAutoIndex_dom_def spec_detector_dom_def Let_def hasIndexTitle_spec
      hasParentLink_spec hasPre_spec hasTable_spec fileish_count
    by auto
  have 3: "\<not> spec_detector h d \<and> \<not> spec_detector_dom h d" if "functional_count h d < 3"
    using that by (simp add: spec_detector_def spec_detector_dom_def)
  show ?thesis
    using 1 2 3 by blast
qed

lemma pre_cue_test:
  "pre_cue d =
     (case first_elem (is_tag ''pre'') (doc_children d) of
        None \<Rightarrow> False
      | Some n \<Rightarrow> regex_test apache_iso (textContent n) \<or> regex_test apache_mon (textContent n))"
  by (simp add: pre_cue_def pattern_test split: option.splits)

lemma sample_cues:
  "cues title_doc = (True, False, False, False, False)"
  "cues parent_doc = (False, True, False, False, False)"
  "cues pre_only_doc = (False, False, True, False, False)"
  "cues table_doc = (False, False, False, True, False)"
  "cues both_doc = (False, False, False, False, True)"
  "cues plain_doc = (False, False, False, False, False)"
  "cues grid_doc = (False, False, False, False, False)"
  "cues short_doc = (True, False, False, False, False)"
  unfolding cues_def pre_cue_test by code_simp+

lemma sample_counts:
  "functional_count demo_host title_doc = 3" "functional_count demo_host parent_doc = 3"
  "functional_count demo_host pre_only_doc = 3" "functional_count demo_host table_doc = 3"
  "functional_count demo_host both_doc = 3" "functional_count demo_host plain_doc = 3"
  "functional_count demo_host grid_doc = 3" "functional_count demo_host short_doc = 2"
  by code_simp+

theorem looksLikeAutoIndex_cues_witness:
  "cues title_doc = (True, False, False, False, False) \<and> looksLikeAutoIndex demo_host title_doc
   \<and> cues parent_doc = (False, True, False, False, False) \<and> looksLikeAutoIndex demo_host parent_doc
   \<and> cues pre_only_doc = (False, False, True, False, False)
   \<and> looksLikeAutoIndex demo_host pre_only_doc \<and> \<not> looksLikeAutoIndex_dom demo_host pre_only_doc
   \<and> cues table_doc = (False, False, False, True, False)
   \<and> looksLikeAutoIndex demo_host table_doc \<and> \<not> looksLikeAutoIndex_dom demo_host table_doc
   \<and> cues both_doc = (False, False, False, False, True)
   \<and> looksLikeAutoIndex demo_host both_doc \<and> looksLikeAutoIndex_dom demo_host both_doc
   \<and> cues plain_doc = (False, False, False, False, False)
   \<and> functional_count demo_host plain_doc = 3 \<and> \<not> looksLikeAutoIndex demo_host plain_doc
   \<and> cues grid_doc = (False, False, False, False, False) \<and> \<not> looksLikeAutoIndex demo_host grid_doc
   \<and> cues short_doc = (True, False, False, False, False)
   \<and> functional_count demo_host short_doc = 2
   \<and> \<not> looksLikeAutoIndex demo_host short_doc \<and> \<not> looksLikeAutoIndex_dom demo_host short_doc"
proof -
  have spec: "spec_detector demo_host d = ((a \<or> b \<or> c \<or> e \<or> f) \<and> 3 \<le> functional_count demo_host d)"
    "spec_detector_dom demo_host d = ((a \<or> b \<or> f) \<and> 3 \<le> functional_count demo_host d)"
    if "cues d = (a, b, c, e, f)" for d a b c e f
    using that by (auto simp: cues_def spec_detector_def spec_detector_dom_def)
  note t = looksLikeAutoIndex_cues [of demo_host]
  have "looksLikeAutoIndex demo_host title_doc"
    using t [of title_doc] spec [OF sample_cues(1)] sample_counts(1) by simp
  moreover have "looksLikeAutoIndex demo_host parent_doc"
    using t [of parent_doc] spec [OF sample_cues(2)] sample_counts(2) by simp
  moreover have "looksLikeAutoIndex demo_host pre_only_doc \<and> \<not> looksLikeAutoIndex_dom demo_host pre_only_doc"
    using t [of pre_only_doc] spec [OF sample_cues(3)] sample_counts(3) by simp
  moreover have "looksLikeAutoIndex demo_host table_doc \<and> \<not> looksLikeAutoIndex_dom demo_host table_doc"
    using t [of table_doc] spec [OF sample_cues(4)] sample_counts(4) by simp
  moreover have "looksLikeAutoIndex demo_host both_doc \<and> looksLikeAutoIndex_dom demo_host both_doc"
    using t [of both_doc] spec [OF sample_cues(5)] sample_counts(5) by simp
  moreover have "\<not> looksLikeAutoIndex demo_host plain_doc"
    using t [of plain_doc] spec [OF sample_cues(6)] sample_counts(6) by simp
  moreover have "\<not> looksLikeAutoIndex demo_host grid_doc"
    using t [of grid_doc] spec [OF sample_cues(7)] sample_counts(7) by simp
  moreover have "\<not> looksLikeAutoIndex demo_host short_doc \<and> \<not> looksLikeAutoIndex_dom demo_host short_doc"
    using t [of short_doc] sample_counts(8) by auto
  ultimately show ?thesis
    using sample_cues sample_counts(6,8) by simp
qed


subsection \<open>Listing parser\<close>

lemma total_push: "total (push h i a href url name acc) \<le> Suc (total acc)"
  by (simp add: push_def total_def Let_def)

lemma accumulate_bound:
  "total acc < MAX_ITEMS_PAGE \<Longrightarrow> accumulate h baseUrl i anchors acc = Some r
     \<Longrightarrow> total r \<le> MAX_ITEMS_PAGE"
proof (induction anchors arbitrary: i acc)
  case Nil
  then show ?case by simp
next
  case (Cons a rest)
  let ?href = "case getAttribute a ''href'' of None \<Rightarrow> [] | Some v \<Rightarrow> v"
  let ?url = "abs_url h ?href baseUrl"
  show ?case
  proof (cases "?href = [] \<or> ?href = ''../'' \<or> ?href = ''./'' \<or> ?href = ''/''
                 \<or> \<not> isFunctionalLink h a")
    case True
    then have "accumulate h baseUrl (i + 1) rest acc = Some r"
      using Cons.prems(2) by (auto simp: Let_def split: if_splits)
    then show ?thesis using Cons.IH Cons.prems(1) by blast
  next
    case False
    then obtain name where n: "entry_name h a ?url = Some name"
      using Cons.prems(2) by (auto simp: Let_def split: option.splits)
    show ?thesis
    proof (cases "name = []")
      case True
      then have "accumulate h baseUrl (i + 1) rest acc = Some r"
        using Cons.prems(2) False n by (simp add: Let_def)
      then show ?thesis using Cons.IH Cons.prems(1) by blast
    next
      case nonempty: False
      let ?acc = "push h i a ?href ?url name acc"
      show ?thesis
      proof (cases "total ?acc \<ge> MAX_ITEMS_PAGE")
        case True
        then have "r = ?acc"
          using Cons.prems(2) False n nonempty by (simp add: Let_def)
        then show ?thesis
          using total_push [of h i a ?href ?url name acc] Cons.prems(1) by simp
      next
        case below: False
        then have "accumulate h baseUrl (i + 1) rest ?acc = Some r"
          using Cons.prems(2) False n nonempty by (simp add: Let_def)
        moreover have "total ?acc < MAX_ITEMS_PAGE" using below by simp
        ultimately show ?thesis using Cons.IH by blast
      qed
    qed
  qed
qed

lemma accumulate_stops:
  "total acc < MAX_ITEMS_PAGE \<Longrightarrow> accumulate h baseUrl i anchors acc = Some r
     \<Longrightarrow> total r \<ge> MAX_ITEMS_PAGE
     \<Longrightarrow> accumulate h baseUrl i (anchors @ extra) acc = Some r"
proof (induction anchors arbitrary: i acc)
  case Nil
  then show ?case by simp
next
  case (Cons a rest)
  let ?href = "case getAttribute a ''href'' of None \<Rightarrow> [] | Some v \<Rightarrow> v"
  let ?url = "abs_url h ?href baseUrl"
  show ?case
  proof (cases "?href = [] \<or> ?href = ''../'' \<or> ?href = ''./'' \<or> ?href = ''/''
                 \<or> \<not> isFunctionalLink h a")
    case True
    then have "accumulate h baseUrl (i + 1) rest acc = Some r"
      using Cons.prems(2) by (auto simp: Let_def split: if_splits)
    then have "accumulate h baseUrl (i + 1) (rest @ extra) acc = Some r"
      using Cons.IH Cons.prems(1,3) by blast
    then show ?thesis using True by (auto simp: Let_def)
  next
    case False
    then obtain name where n: "entry_name h a ?url = Some name"
      using Cons.prems(2) by (auto simp: Let_def split: option.splits)
    show ?thesis
    proof (cases "name = []")
      case True
      then have "accumulate h baseUrl (i + 1) rest acc = Some r"
        using Cons.prems(2) False n by (simp add: Let_def)
      then have "accumulate h baseUrl (i + 1) (rest @ extra) acc = Some r"
        using Cons.IH Cons.prems(1,3) by blast
      then show ?thesis using True False n by (simp add: Let_def)
    next
      case nonempty: False
      let ?acc = "push h i a ?href ?url name acc"
      show ?thesis
      proof (cases "total ?acc \<ge> MAX_ITEMS_PAGE")
        case True
        then show ?thesis
          using Cons.prems(2) False n nonempty by (simp add: Let_def)
      next
        case below: False
        then have "accumulate h baseUrl (i + 1) rest ?acc = Some r"
          using Cons.prems(2) False n nonempty by (simp add: Let_def)
        moreover have "total ?acc < MAX_ITEMS_PAGE" using below by simp
        ultimately have "accumulate h baseUrl (i + 1) (rest @ extra) ?acc = Some r"
          using Cons.IH Cons.prems(3) by blast
        then show ?thesis using below False n nonempty by (simp add: Let_def)
      qed
    qed
  qed
qed

lemma length_uniq_from: "length (uniq_from seen xs) \<le> length xs"
  by (induction xs arbitrary: seen) (auto intro: le_SucI)

lemma mset_insert_by: "mset (insert_by cmp x ys) = add_mset x (mset ys)"
  by (induction ys) auto

lemma mset_sort_by: "mset (sort_by cmp xs) = mset xs"
  unfolding sort_by_def by (induction xs) (auto simp: mset_insert_by)

lemma length_sort_by: "length (sort_by cmp xs) = length xs"
  using mset_sort_by [of cmp xs] by (metis size_mset)

lemma parseIndex_Some:
  "parseIndex h doc baseUrl = Some r \<Longrightarrow>
     \<exists>acc. accumulate h baseUrl 0 (select_anchors doc) empty_listing = Some acc
       \<and> dirs r = sort_by (byName h) (uniq (dirs acc))
       \<and> images r = sort_by (byName h) (uniq (images acc))
       \<and> files_of r = sort_by (byName h) (uniq (files_of acc))"
  by (auto simp: parseIndex_def split: option.splits)

lemma total_empty: "total empty_listing < MAX_ITEMS_PAGE"
  by (simp add: total_def empty_listing_def MAX_ITEMS_PAGE_def)

text \<open>
  The parser returns whenever \<open>decodeURIComponent\<close> does not throw: nothing else in
  the loop can fail.
\<close>

lemma entry_name_returns:
  "\<forall>s. decodeURIComponent h s \<noteq> None \<Longrightarrow> \<exists>n. entry_name h a url = Some n"
proof -
  assume d: "\<forall>s. decodeURIComponent h s \<noteq> None"
  have "decodeURIComponent h (split_last (CHR ''/'') url) \<noteq> None"
    using d by (rule spec)
  then obtain raw where "decodeURIComponent h (split_last (CHR ''/'') url) = Some raw"
    by blast
  then show ?thesis by (simp add: entry_name_def Let_def)
qed

lemma accumulate_returns:
  "\<forall>s. decodeURIComponent h s \<noteq> None \<Longrightarrow> \<exists>r. accumulate h baseUrl i anchors acc = Some r"
proof (induction anchors arbitrary: i acc)
  case Nil
  then show ?case by simp
next
  case (Cons a rest)
  let ?href = "case getAttribute a ''href'' of None \<Rightarrow> [] | Some v \<Rightarrow> v"
  obtain n where n: "entry_name h a (abs_url h ?href baseUrl) = Some n"
    using entry_name_returns [OF Cons.prems] by blast
  have ih: "\<exists>r. accumulate h baseUrl (i + 1) rest acc' = Some r" for acc'
    using Cons.IH [OF Cons.prems] .
  show ?case
    using n ih by (simp add: Let_def)
qed

lemma parseIndex_returns:
  "\<forall>s. decodeURIComponent h s \<noteq> None \<Longrightarrow> \<exists>r. parseIndex h doc baseUrl = Some r"
proof -
  assume "\<forall>s. decodeURIComponent h s \<noteq> None"
  then obtain acc where "accumulate h baseUrl 0 (select_anchors doc) empty_listing = Some acc"
    using accumulate_returns by blast
  then show ?thesis by (simp add: parseIndex_def)
qed

text \<open>
  Claim C3: for every document and base URL, \<open>parseIndex\<close> stops accumulating entries
  as soon as the combined count of directory, image and file entries reaches the per-page
  maximum (12,000): the sum of the lengths of the three returned lists never exceeds the
  maximum, the accumulated buckets never do either, and once they hold the maximum the
  anchors that follow are not looked at, however many there are.
\<close>

theorem parseIndex_bounded:
  "(parseIndex h doc baseUrl = Some r \<longrightarrow>
      length (dirs r) + length (images r) + length (files_of r) \<le> MAX_ITEMS_PAGE)
   \<and> (accumulate h baseUrl 0 anchors empty_listing = Some acc \<longrightarrow>
        total acc \<le> MAX_ITEMS_PAGE
        \<and> (total acc = MAX_ITEMS_PAGE \<longrightarrow>
             accumulate h baseUrl 0 (anchors @ extra) empty_listing = Some acc))"
proof -
  have 1: "length (dirs r) + length (images r) + length (files_of r) \<le> MAX_ITEMS_PAGE"
    if p: "parseIndex h doc baseUrl = Some r"
  proof -
    obtain acc where acc: "accumulate h baseUrl 0 (select_anchors doc) empty_listing = Some acc"
      and r: "dirs r = sort_by (byName h) (uniq (dirs acc))"
        "images r = sort_by (byName h) (uniq (images acc))"
        "files_of r = sort_by (byName h) (uniq (files_of acc))"
      using parseIndex_Some [OF p] by blast
    have "total acc \<le> MAX_ITEMS_PAGE"
      using accumulate_bound [OF total_empty acc] .
    moreover have "length (dirs r) \<le> length (dirs acc)" "length (images r) \<le> length (images acc)"
      "length (files_of r) \<le> length (files_of acc)"
      using r by (simp_all add: length_sort_by uniq_def length_uniq_from)
    ultimately show ?thesis by (simp add: total_def)
  qed
  have 2: "total acc \<le> MAX_ITEMS_PAGE"
    if "accumulate h baseUrl 0 anchors empty_listing = Some acc"
    using accumulate_bound [OF total_empty that] .
  have 3: "accumulate h baseUrl 0 (anchors @ extra) empty_listing = Some acc"
    if "accumulate h baseUrl 0 anchors empty_listing = Some acc" "total acc = MAX_ITEMS_PAGE"
    using accumulate_stops [OF total_empty that(1)] that(2) by simp
  show ?thesis using 1 2 3 by blast
qed


lemma uniq_from_unseen: "e \<in> set (uniq_from seen xs) \<Longrightarrow> e_url e \<notin> seen"
  by (induction xs arbitrary: seen) (auto split: if_splits)

lemma uniq_from_subset: "set (uniq_from seen xs) \<subseteq> set xs"
  by (induction xs arbitrary: seen) (auto split: if_splits)

lemma uniq_from_distinct: "distinct (map e_url (uniq_from seen xs))"
proof (induction xs arbitrary: seen)
  case Nil
  then show ?case by simp
next
  case (Cons x xs)
  have "e_url x \<notin> e_url ` set (uniq_from (insert (e_url x) seen) xs)"
  proof
    assume "e_url x \<in> e_url ` set (uniq_from (insert (e_url x) seen) xs)"
    then obtain e where e: "e \<in> set (uniq_from (insert (e_url x) seen) xs)" "e_url e = e_url x"
      by auto
    have "e_url e \<notin> insert (e_url x) seen" using e(1) by (rule uniq_from_unseen)
    then show False using e(2) by simp
  qed
  then show ?case using Cons.IH [of seen] Cons.IH [of "insert (e_url x) seen"] by simp
qed

lemma uniq_from_urls: "e_url ` set (uniq_from seen xs) = e_url ` set xs - seen"
proof (induction xs arbitrary: seen)
  case Nil
  then show ?case by simp
next
  case (Cons x xs)
  show ?case
  proof (cases "e_url x \<in> seen")
    case True
    then show ?thesis using Cons.IH [of seen] by auto
  next
    case False
    then show ?thesis using Cons.IH [of "insert (e_url x) seen"] by auto
  qed
qed

lemma uniq_from_first:
  "e \<in> set (uniq_from seen xs) \<Longrightarrow> find (\<lambda>x. e_url x = e_url e) xs = Some e"
proof (induction xs arbitrary: seen)
  case Nil
  then show ?case by simp
next
  case (Cons x xs)
  show ?case
  proof (cases "e_url x \<in> seen")
    case True
    then have e: "e \<in> set (uniq_from seen xs)" using Cons.prems by simp
    then have "e_url e \<notin> seen" by (rule uniq_from_unseen)
    then have "e_url x \<noteq> e_url e" using True by auto
    then show ?thesis using Cons.IH [OF e] by simp
  next
    case False
    then have "e = x \<or> e \<in> set (uniq_from (insert (e_url x) seen) xs)"
      using Cons.prems by auto
    then show ?thesis
    proof
      assume "e = x"
      then show ?thesis by simp
    next
      assume e: "e \<in> set (uniq_from (insert (e_url x) seen) xs)"
      then have "e_url e \<notin> insert (e_url x) seen" by (rule uniq_from_unseen)
      then have "e_url x \<noteq> e_url e" by auto
      then show ?thesis using Cons.IH [OF e] by simp
    qed
  qed
qed

lemma set_insert_by: "set (insert_by cmp x ys) = insert x (set ys)"
  by (induction ys) auto

lemma sorted_insert_by:
  assumes tot: "\<forall>a b. cmp a b \<le> 0 \<or> cmp b a \<le> 0"
    and trans: "\<forall>a b c. cmp a b \<le> 0 \<and> cmp b c \<le> 0 \<longrightarrow> cmp a c \<le> 0"
    and srt: "sorted_wrt (\<lambda>a b. cmp a b \<le> 0) ys"
  shows "sorted_wrt (\<lambda>a b. cmp a b \<le> (0::int)) (insert_by cmp x ys)"
  using srt
proof (induction ys)
  case Nil
  then show ?case by simp
next
  case (Cons y ys)
  have ys: "sorted_wrt (\<lambda>a b. cmp a b \<le> 0) ys" and y: "\<forall>z \<in> set ys. cmp y z \<le> 0"
    using Cons.prems by simp_all
  show ?case
  proof (cases "cmp x y \<le> 0")
    case True
    have "cmp x z \<le> 0" if "z \<in> set ys" for z
    proof -
      have "cmp y z \<le> 0" using y that by blast
      then show ?thesis using True trans by blast
    qed
    then show ?thesis using True Cons.prems by simp
  next
    case False
    then have yx: "cmp y x \<le> 0" using tot by blast
    have "sorted_wrt (\<lambda>a b. cmp a b \<le> 0) (insert_by cmp x ys)"
      using Cons.IH [OF ys] .
    moreover have "\<forall>z \<in> set (insert_by cmp x ys). cmp y z \<le> 0"
      using y yx by (simp add: set_insert_by)
    ultimately show ?thesis using False by simp
  qed
qed

lemma sorted_sort_by:
  assumes "\<forall>a b. cmp a b \<le> 0 \<or> cmp b a \<le> 0"
    and "\<forall>a b c. cmp a b \<le> 0 \<and> cmp b c \<le> 0 \<longrightarrow> cmp a c \<le> 0"
  shows "sorted_wrt (\<lambda>a b. cmp a b \<le> (0::int)) (sort_by cmp xs)"
  unfolding sort_by_def
  by (induction xs) (simp_all add: sorted_insert_by [OF assms])

lemma set_sort_by: "set (sort_by cmp xs) = set xs"
  using mset_sort_by [of cmp xs] by (metis set_mset_mset)

lemma distinct_urls_sort_by:
  "distinct (map e_url xs) \<Longrightarrow> distinct (map e_url (sort_by cmp xs))"
proof -
  assume d: "distinct (map e_url xs)"
  have "mset (map e_url (sort_by cmp xs)) = mset (map e_url xs)"
    by (simp add: mset_sort_by)
  from mset_eq_imp_distinct_iff [OF this] show ?thesis using d by simp
qed

lemma bucket_deduped_sorted:
  assumes "\<forall>a b. nat_compare h a b \<le> 0 \<or> nat_compare h b a \<le> 0"
    and "\<forall>a b c. nat_compare h a b \<le> 0 \<and> nat_compare h b c \<le> 0 \<longrightarrow> nat_compare h a c \<le> 0"
  shows "deduped_sorted h bucket (sort_by (byName h) (uniq bucket))"
proof -
  let ?out = "sort_by (byName h) (uniq bucket)"
  have 1: "distinct (map e_url ?out)"
    by (simp add: distinct_urls_sort_by uniq_def uniq_from_distinct)
  have 2: "set (map e_url ?out) = set (map e_url bucket)"
    using uniq_from_urls [of "{}" bucket] by (simp add: set_sort_by uniq_def)
  have 3: "list_all (\<lambda>e. find (\<lambda>x. e_url x = e_url e) bucket = Some e) ?out"
    unfolding list_all_iff set_sort_by uniq_def
    by (intro ballI) (rule uniq_from_first)
  have tot: "\<forall>a b. byName h a b \<le> 0 \<or> byName h b a \<le> 0"
    using assms(1) by (simp add: byName_def)
  have trans: "\<forall>a b c. byName h a b \<le> 0 \<and> byName h b c \<le> 0 \<longrightarrow> byName h a c \<le> 0"
    using assms(2) unfolding byName_def by blast
  have "sorted_wrt (\<lambda>a b. byName h a b \<le> 0) ?out"
    using sorted_sort_by [OF tot trans] .
  then have 4: "sorted_wrt (\<lambda>a b. nat_compare h (e_name a) (e_name b) \<le> 0) ?out"
    by (simp add: byName_def)
  show ?thesis unfolding deduped_sorted_def using 1 2 3 4 by blast
qed

text \<open>
  The buckets the loop builds are the entries the processed anchors produce, in the
  order of the anchors: the loop appends.
\<close>

lemma made_append: "made k (xs @ ys) = made k xs @ made k ys"
  by (induction k xs rule: made.induct) simp_all

lemma accumulate_step:
  assumes "total acc < MAX_ITEMS_PAGE"
  shows "accumulate h baseUrl i (a # rest) acc =
     (case anchor_outcome h baseUrl i a of
        Skipped \<Rightarrow> accumulate h baseUrl (i + 1) rest acc
      | Threw \<Rightarrow> None
      | Made e \<Rightarrow>
          (let acc' = acc\<lparr>dirs := dirs acc @ made Dir [Made e],
                          images := images acc @ made Img [Made e],
                          files_of := files_of acc @ made File [Made e]\<rparr>
           in if total acc' \<ge> MAX_ITEMS_PAGE then Some acc'
              else accumulate h baseUrl (i + 1) rest acc'))"
  using assms
  by (auto simp: anchor_outcome_def push_def Let_def split: option.splits)

lemma accumulate_buckets:
  "total acc < MAX_ITEMS_PAGE \<Longrightarrow> accumulate h baseUrl i anchors acc = Some r \<Longrightarrow>
     \<exists>n \<le> length anchors.
        dirs r = dirs acc @ made Dir (take n (outcomes h baseUrl i anchors))
      \<and> images r = images acc @ made Img (take n (outcomes h baseUrl i anchors))
      \<and> files_of r = files_of acc @ made File (take n (outcomes h baseUrl i anchors))
      \<and> Threw \<notin> set (take n (outcomes h baseUrl i anchors))
      \<and> (n = length anchors \<or> MAX_ITEMS_PAGE \<le> total r)"
proof (induction anchors arbitrary: i acc)
  case Nil
  then show ?case by simp
next
  case (Cons a rest)
  note step = accumulate_step [OF Cons.prems(1), of h baseUrl i a rest]
  let ?outs = "outcomes h baseUrl (i + 1) rest"
  show ?case
  proof (cases "anchor_outcome h baseUrl i a")
    case Skipped
    then have "accumulate h baseUrl (i + 1) rest acc = Some r"
      using Cons.prems(2) step by simp
    from Cons.IH [OF Cons.prems(1) this] obtain n where n: "n \<le> length rest"
      "dirs r = dirs acc @ made Dir (take n ?outs)"
      "images r = images acc @ made Img (take n ?outs)"
      "files_of r = files_of acc @ made File (take n ?outs)"
      "Threw \<notin> set (take n ?outs)" "n = length rest \<or> MAX_ITEMS_PAGE \<le> total r"
      by blast
    show ?thesis
      by (rule exI [of _ "Suc n"]) (use n Skipped in simp)
  next
    case Threw
    then show ?thesis using Cons.prems(2) step by simp
  next
    case (Made e)
    let ?acc = "acc\<lparr>dirs := dirs acc @ made Dir [Made e],
                    images := images acc @ made Img [Made e],
                    files_of := files_of acc @ made File [Made e]\<rparr>"
    show ?thesis
    proof (cases "MAX_ITEMS_PAGE \<le> total ?acc")
      case True
      then have "r = ?acc"
        using Cons.prems(2) step Made by (simp add: Let_def)
      then show ?thesis
        using True Made by (intro exI [of _ 1]) simp
    next
      case False
      then have run: "accumulate h baseUrl (i + 1) rest ?acc = Some r"
        using Cons.prems(2) step Made by (simp add: Let_def)
      have below: "total ?acc < MAX_ITEMS_PAGE" using False by simp
      from Cons.IH [OF below run] obtain n where n: "n \<le> length rest"
        "dirs r = dirs ?acc @ made Dir (take n ?outs)"
        "images r = images ?acc @ made Img (take n ?outs)"
        "files_of r = files_of ?acc @ made File (take n ?outs)"
        "Threw \<notin> set (take n ?outs)" "n = length rest \<or> MAX_ITEMS_PAGE \<le> total r"
        by blast
      show ?thesis
        by (rule exI [of _ "Suc n"]) (use n Made in simp)
    qed
  qed
qed

text \<open>
  Claim C2: for every document and base URL for which \<open>parseIndex\<close> returns, the three
  buckets the loop accumulated hold, in the order of the anchors, the entries that the
  processed anchors produce (the first \<open>n\<close> selected anchors: all of them, or those up
  to the one that filled the page), each entry with the resolved URL and the cleaned text
  of its anchor; and each of the three lists \<open>dirs\<close>, \<open>images\<close>, \<open>files\<close> holds at most
  one entry per resolved URL, the URLs are those of its bucket, every entry is the first
  one of the bucket with its URL (the entry produced from the first accepted anchor with
  that URL, name included), and the list is in ascending order of the names under the
  natural comparator. The comparator is a consistent one (total and transitive), as a
  collator's is.
\<close>

theorem parseIndex_deduped_sorted:
  assumes "\<forall>a b. nat_compare h a b \<le> 0 \<or> nat_compare h b a \<le> 0"
    and "\<forall>a b c. nat_compare h a b \<le> 0 \<and> nat_compare h b c \<le> 0 \<longrightarrow> nat_compare h a c \<le> 0"
    and "parseIndex h doc baseUrl = Some r"
  shows "\<exists>acc n. accumulate h baseUrl 0 (select_anchors doc) empty_listing = Some acc
           \<and> n \<le> length (select_anchors doc)
           \<and> (n = length (select_anchors doc) \<or> total acc = MAX_ITEMS_PAGE)
           \<and> Threw \<notin> set (take n (outcomes h baseUrl 0 (select_anchors doc)))
           \<and> dirs acc = made Dir (take n (outcomes h baseUrl 0 (select_anchors doc)))
           \<and> images acc = made Img (take n (outcomes h baseUrl 0 (select_anchors doc)))
           \<and> files_of acc = made File (take n (outcomes h baseUrl 0 (select_anchors doc)))
           \<and> deduped_sorted h (dirs acc) (dirs r)
           \<and> deduped_sorted h (images acc) (images r)
           \<and> deduped_sorted h (files_of acc) (files_of r)"
proof -
  let ?outs = "outcomes h baseUrl 0 (select_anchors doc)"
  obtain acc where acc: "accumulate h baseUrl 0 (select_anchors doc) empty_listing = Some acc"
    and r: "dirs r = sort_by (byName h) (uniq (dirs acc))"
      "images r = sort_by (byName h) (uniq (images acc))"
      "files_of r = sort_by (byName h) (uniq (files_of acc))"
    using parseIndex_Some [OF assms(3)] by blast
  from accumulate_buckets [OF total_empty acc] obtain n where n: "n \<le> length (select_anchors doc)"
    "dirs acc = made Dir (take n ?outs)" "images acc = made Img (take n ?outs)"
    "files_of acc = made File (take n ?outs)" "Threw \<notin> set (take n ?outs)"
    "n = length (select_anchors doc) \<or> MAX_ITEMS_PAGE \<le> total acc"
    by (auto simp: empty_listing_def)
  have "total acc \<le> MAX_ITEMS_PAGE"
    using accumulate_bound [OF total_empty acc] .
  then have full: "n = length (select_anchors doc) \<or> total acc = MAX_ITEMS_PAGE"
    using n(6) by auto
  have d: "deduped_sorted h (dirs acc) (dirs r)" "deduped_sorted h (images acc) (images r)"
    "deduped_sorted h (files_of acc) (files_of r)"
    unfolding r by (rule bucket_deduped_sorted [OF assms(1,2)])+
  show ?thesis
    by (intro exI [of _ acc] exI [of _ n] conjI) (rule acc n full d)+
qed


lemma demo_compare:
  "(\<forall>a b. nat_compare demo_host a b \<le> 0 \<or> nat_compare demo_host b a \<le> 0)
   \<and> (\<forall>a b c. nat_compare demo_host a b \<le> 0 \<and> nat_compare demo_host b c \<le> 0
         \<longrightarrow> nat_compare demo_host a c \<le> 0)"
  by (auto simp: demo_host_def)

lemma demo_parse: "parseIndex demo_host demo_doc ''http://h/d/'' = Some demo_listing"
  by code_simp

theorem parseIndex_deduped_sorted_witness:
  "parseIndex demo_host demo_doc ''http://h/d/'' = Some demo_listing
   \<and> map e_name (images demo_listing) = [''b.jpg'', ''first'']
   \<and> map (\<lambda>a. (getAttribute a ''href'', textContent a)) (select_anchors demo_doc)
       = [(Some ''../'', ''Parent Directory''), (Some ''b.jpg'', ''b.jpg''), (Some ''sub/'', ''sub/''),
          (Some ''a.jpg'', ''first''), (Some ''a.jpg'', ''second name''),
          (Some ''notes.txt'', ''notes.txt''), (Some ''doc.pdf'', ''doc.pdf'')]
   \<and> (\<exists>acc. accumulate demo_host ''http://h/d/'' 0 (select_anchors demo_doc) empty_listing = Some acc
         \<and> images acc = made Img (outcomes demo_host ''http://h/d/'' 0 (select_anchors demo_doc))
         \<and> map e_name (images acc) = [''b.jpg'', ''first'', ''second name'']
         \<and> map e_url (images acc) = [''http://h/d/b.jpg'', ''http://h/d/a.jpg'', ''http://h/d/a.jpg'']
         \<and> deduped_sorted demo_host (dirs acc) (dirs demo_listing)
         \<and> deduped_sorted demo_host (images acc) (images demo_listing)
         \<and> deduped_sorted demo_host (files_of acc) (files_of demo_listing))"
proof -
  let ?anchors = "select_anchors demo_doc"
  let ?outs = "outcomes demo_host ''http://h/d/'' 0 ?anchors"
  have tot: "\<forall>a b. nat_compare demo_host a b \<le> 0 \<or> nat_compare demo_host b a \<le> 0"
    and trans: "\<forall>a b c. nat_compare demo_host a b \<le> 0 \<and> nat_compare demo_host b c \<le> 0
         \<longrightarrow> nat_compare demo_host a c \<le> 0"
    using demo_compare by blast+
  obtain acc n where acc:
    "accumulate demo_host ''http://h/d/'' 0 ?anchors empty_listing = Some acc"
    "n = length ?anchors \<or> total acc = MAX_ITEMS_PAGE"
    "images acc = made Img (take n ?outs)"
    "deduped_sorted demo_host (dirs acc) (dirs demo_listing)"
    "deduped_sorted demo_host (images acc) (images demo_listing)"
    "deduped_sorted demo_host (files_of acc) (files_of demo_listing)"
    using parseIndex_deduped_sorted [OF tot trans demo_parse] by blast
  have "total (the (accumulate demo_host ''http://h/d/'' 0 ?anchors empty_listing)) < MAX_ITEMS_PAGE"
    by code_simp
  then have "n = length ?anchors"
    using acc(1,2) by auto
  moreover have "length ?outs = length ?anchors" for i
    by code_simp
  ultimately have 1: "images acc = made Img ?outs"
    using acc(3) by simp
  have "map e_name (made Img ?outs) = [''b.jpg'', ''first'', ''second name'']"
    "map e_url (made Img ?outs) = [''http://h/d/b.jpg'', ''http://h/d/a.jpg'', ''http://h/d/a.jpg'']"
    by code_simp+
  then have 2: "map e_name (images acc) = [''b.jpg'', ''first'', ''second name'']"
    "map e_url (images acc) = [''http://h/d/b.jpg'', ''http://h/d/a.jpg'', ''http://h/d/a.jpg'']"
    using 1 by simp_all
  have 3: "map e_name (images demo_listing) = [''b.jpg'', ''first'']"
    by (simp add: demo_listing_def)
  have 4: "map (\<lambda>a. (getAttribute a ''href'', textContent a)) ?anchors
       = [(Some ''../'', ''Parent Directory''), (Some ''b.jpg'', ''b.jpg''), (Some ''sub/'', ''sub/''),
          (Some ''a.jpg'', ''first''), (Some ''a.jpg'', ''second name''),
          (Some ''notes.txt'', ''notes.txt''), (Some ''doc.pdf'', ''doc.pdf'')]"
    by code_simp
  show ?thesis
    using demo_parse acc(1,4,5,6) 1 2 3 4 by (intro conjI exI [of _ acc]) assumption+
qed

lemma demo_img_facts:
  "getAttribute demo_img ''href'' = Some ''a.jpg''"
  "isFunctionalLink demo_host demo_img"
  "entry_name demo_host demo_img ''http://h/d/a.jpg'' = Some ''first''"
  "abs_url demo_host ''a.jpg'' ''http://h/d/'' = ''http://h/d/a.jpg''"
  "\<not> isDirHref ''a.jpg''" "isImgHref ''a.jpg''" "getExt ''http://h/d/a.jpg'' = ''jpg''"
  by code_simp+

lemma demo_img_push:
  "push demo_host i demo_img ''a.jpg'' ''http://h/d/a.jpg'' ''first'' acc
     = acc\<lparr>images := images acc @ [demo_entry]\<rparr>"
  by (simp add: push_def demo_img_facts demo_entry_def Let_def demo_host_def)

lemma demo_img_step:
  "accumulate demo_host ''http://h/d/'' i (demo_img # rest) acc
     = (if total (acc\<lparr>images := images acc @ [demo_entry]\<rparr>) \<ge> MAX_ITEMS_PAGE
        then Some (acc\<lparr>images := images acc @ [demo_entry]\<rparr>)
        else accumulate demo_host ''http://h/d/'' (i + 1) rest (acc\<lparr>images := images acc @ [demo_entry]\<rparr>))"
  by (simp add: demo_img_facts demo_img_push Let_def)

lemma demo_img_run:
  "total acc + n \<le> MAX_ITEMS_PAGE \<Longrightarrow>
     accumulate demo_host ''http://h/d/'' i (replicate n demo_img) acc
       = Some (acc\<lparr>images := images acc @ replicate n demo_entry\<rparr>)"
proof (induction n arbitrary: i acc)
  case 0
  then show ?case by simp
next
  case (Suc n)
  let ?acc = "acc\<lparr>images := images acc @ [demo_entry]\<rparr>"
  have t: "total ?acc = Suc (total acc)" by (simp add: total_def)
  show ?case
  proof (cases "total ?acc \<ge> MAX_ITEMS_PAGE")
    case True
    then have "n = 0" using Suc.prems t by simp
    then show ?thesis using True by (simp add: demo_img_step del: accumulate.simps)
  next
    case False
    have "accumulate demo_host ''http://h/d/'' (i + 1) (replicate n demo_img) ?acc
            = Some (?acc\<lparr>images := images ?acc @ replicate n demo_entry\<rparr>)"
      by (rule Suc.IH) (use Suc.prems t in simp)
    then show ?thesis
      using False by (simp add: demo_img_step replicate_app_Cons_same del: accumulate.simps)
  qed
qed

lemma demo_img_full:
  "accumulate demo_host ''http://h/d/'' 0 (replicate MAX_ITEMS_PAGE demo_img) empty_listing
     = Some (empty_listing\<lparr>images := replicate MAX_ITEMS_PAGE demo_entry\<rparr>)"
proof -
  have "total (empty_listing :: unit listing) + MAX_ITEMS_PAGE \<le> MAX_ITEMS_PAGE"
    by (simp add: total_def empty_listing_def)
  from demo_img_run [OF this, of 0] show ?thesis
    by (simp add: empty_listing_def)
qed

theorem parseIndex_bounded_witness:
  "parseIndex demo_host demo_doc ''http://h/d/'' = Some demo_listing
   \<and> length (dirs demo_listing) + length (images demo_listing) + length (files_of demo_listing)
       \<le> MAX_ITEMS_PAGE
   \<and> accumulate demo_host ''http://h/d/'' 0 (replicate MAX_ITEMS_PAGE demo_img) empty_listing
       = Some (empty_listing\<lparr>images := replicate MAX_ITEMS_PAGE demo_entry\<rparr>)
   \<and> total (empty_listing\<lparr>images := replicate MAX_ITEMS_PAGE demo_entry\<rparr>) = MAX_ITEMS_PAGE
   \<and> accumulate demo_host ''http://h/d/'' 0 (replicate MAX_ITEMS_PAGE demo_img @ [demo_img, demo_img])
        empty_listing
       = Some (empty_listing\<lparr>images := replicate MAX_ITEMS_PAGE demo_entry\<rparr>)"
proof -
  let ?acc = "empty_listing\<lparr>images := replicate MAX_ITEMS_PAGE demo_entry\<rparr> :: unit listing"
  have full: "total ?acc = MAX_ITEMS_PAGE"
    by (simp add: total_def empty_listing_def)
  note b = parseIndex_bounded [of demo_host demo_doc "''http://h/d/''" demo_listing
        "replicate MAX_ITEMS_PAGE demo_img" ?acc "[demo_img, demo_img]"]
  have 1: "length (dirs demo_listing) + length (images demo_listing) + length (files_of demo_listing)
       \<le> MAX_ITEMS_PAGE"
    using b demo_parse by blast
  have 2: "accumulate demo_host ''http://h/d/'' 0 (replicate MAX_ITEMS_PAGE demo_img @ [demo_img, demo_img])
        empty_listing = Some ?acc"
    using b demo_img_full full by blast
  show ?thesis
    by (intro conjI) (rule demo_parse 1 demo_img_full full 2)+
qed

end
